theory Spec2Isabelle
  imports Complex_Main "HOL-Library.Char_ord" "HOL-Library.List_Lexorder"
begin

section \<open>Python text primitives\<close>

text \<open>
  A Python \<open>str\<close> is a sequence of code points. It is modelled as \<^typ>\<open>string\<close>, every
  \<^typ>\<open>char\<close> standing for the code point with the same number, so the model covers the
  texts whose code points are below 256 (ASCII and Latin-1). On that range
  \<open>str.lower\<close>, the canonical decomposition of \<open>strip_accents\<close> and the whitespace class
  of \<open>str.strip\<close>, \<open>str.split\<close> and the regular expression \<open>\s\<close> are finite tables,
  written out below. Python floats are modelled as \<^typ>\<open>real\<close>: rounding is not part of
  this model.
\<close>

definition code :: "char \<Rightarrow> nat" where
  "code c = of_char c"

definition isspace :: "char \<Rightarrow> bool" where
  "isspace c = (let n = code c in (9 \<le> n \<and> n \<le> 13) \<or> (28 \<le> n \<and> n \<le> 32) \<or> n = 133 \<or> n = 160)"

definition isdigit :: "char \<Rightarrow> bool" where
  "isdigit c = (let n = code c in 48 \<le> n \<and> n \<le> 57)"

definition is_az :: "char \<Rightarrow> bool" where
  "is_az c = (let n = code c in 97 \<le> n \<and> n \<le> 122)"

text \<open>\<open>s.strip()\<close>: leading and trailing whitespace removed.\<close>

definition strip :: "string \<Rightarrow> string" where
  "strip s = rev (dropWhile isspace (rev (dropWhile isspace s)))"

text \<open>\<open>s.replace(c, r)\<close> for a one-character pattern \<open>c\<close>.\<close>

definition replace_char :: "char \<Rightarrow> string \<Rightarrow> string \<Rightarrow> string" where
  "replace_char c r s = concat (map (\<lambda>x. if x = c then r else [x]) s)"

text \<open>\<open>s.split(c)\<close> for a one-character separator: the pieces between the separators.\<close>

fun split_char :: "char \<Rightarrow> string \<Rightarrow> string list" where
  "split_char c [] = [[]]"
| "split_char c (x # xs) =
     (if x = c then [] # split_char c xs
      else (case split_char c xs of [] \<Rightarrow> [[x]] | p # ps \<Rightarrow> (x # p) # ps))"

text \<open>\<open>s.split()\<close>: the maximal runs of non-whitespace characters. The first argument
  holds the characters of the run being read, last one first.\<close>

fun split_run :: "string \<Rightarrow> string \<Rightarrow> string list" where
  "split_run w [] = (if w = [] then [] else [rev w])"
| "split_run w (c # cs) =
     (if isspace c then (if w = [] then split_run [] cs else rev w # split_run [] cs)
      else split_run (c # w) cs)"

definition split_ws :: "string \<Rightarrow> string list" where
  "split_ws s = split_run [] s"

text \<open>\<open>" ".join(xs)\<close>.\<close>

fun join_sp :: "string list \<Rightarrow> string" where
  "join_sp [] = []"
| "join_sp [x] = x"
| "join_sp (x # y # ys) = x @ CHR '' '' # join_sp (y # ys)"

text \<open>\<open>sorted(set(xs))\<close> on strings: the distinct elements in ascending order (Python
  compares strings code point by code point, a proper prefix first).\<close>

definition sorted_set :: "string list \<Rightarrow> string list" where
  "sorted_set xs = sort (remdups xs)"

section \<open>utils.py: normalisation and tokenisation\<close>

definition STOPWORDS_FR_EN :: "string list" where
  "STOPWORDS_FR_EN =
    [''a'', ''an'', ''and'', ''au'', ''aux'', ''avec'', ''ce'', ''ces'', ''dans'', ''de'',
     ''des'', ''du'', ''elle'', ''en'', ''et'', ''for'', ''il'', ''ils'', ''in'', ''is'',
     ''la'', ''le'', ''les'', ''mais'', ''of'', ''on'', ''or'', ''ou'', ''par'', ''pas'',
     ''pour'', ''que'', ''qui'', ''sur'', ''the'', ''to'', ''un'', ''une'', ''with'']"

definition SYNONYMS :: "(string \<times> string) list" where
  "SYNONYMS =
    [(''basket'', ''chaussure''), (''baskets'', ''chaussure''), (''sneaker'', ''chaussure''),
     (''sneakers'', ''chaussure''), (''tel'', ''telephone''), (''mobile'', ''telephone''),
     (''smartphone'', ''telephone''), (''ordi'', ''ordinateur''), (''laptop'', ''ordinateur''),
     (''notebook'', ''ordinateur''), (''cadeaux'', ''cadeau''), (''anniv'', ''anniversaire''),
     (''runing'', ''running''), (''chaussur'', ''chaussure'')]"

text \<open>\<open>str.lower\<close> on code points below 256: the ASCII capitals and the Latin-1 capitals
  (192 to 222 without the multiplication sign 215) move up by 32.\<close>

definition lower_char :: "char \<Rightarrow> char" where
  "lower_char c =
     (let n = code c in
      if (65 \<le> n \<and> n \<le> 90) \<or> (192 \<le> n \<and> n \<le> 222 \<and> n \<noteq> 215) then char_of (n + 32) else c)"

definition lower :: "string \<Rightarrow> string" where
  "lower s = map lower_char s"

text \<open>\<open>strip_accents\<close>: canonical decomposition (NFD), then every nonspacing mark is
  dropped. Below 256 no code point is a mark, and the letters that decompose are the
  accented Latin-1 letters, each into its base letter and marks.\<close>

definition base_char :: "char \<Rightarrow> char" where
  "base_char c =
     (let n = code c in
      if 192 \<le> n \<and> n \<le> 197 then CHR ''A'' else if n = 199 then CHR ''C''
      else if 200 \<le> n \<and> n \<le> 203 then CHR ''E'' else if 204 \<le> n \<and> n \<le> 207 then CHR ''I''
      else if n = 209 then CHR ''N'' else if 210 \<le> n \<and> n \<le> 214 then CHR ''O''
      else if 217 \<le> n \<and> n \<le> 220 then CHR ''U'' else if n = 221 then CHR ''Y''
      else if 224 \<le> n \<and> n \<le> 229 then CHR ''a'' else if n = 231 then CHR ''c''
      else if 232 \<le> n \<and> n \<le> 235 then CHR ''e'' else if 236 \<le> n \<and> n \<le> 239 then CHR ''i''
      else if n = 241 then CHR ''n'' else if 242 \<le> n \<and> n \<le> 246 then CHR ''o''
      else if 249 \<le> n \<and> n \<le> 252 then CHR ''u'' else if n = 253 \<or> n = 255 then CHR ''y''
      else c)"

definition strip_accents :: "string \<Rightarrow> string" where
  "strip_accents text = map base_char text"

text \<open>\<open>re.sub(r"[^a-z0-9\s]", " ", s)\<close> and \<open>re.sub(r"\s+", " ", s)\<close>.\<close>

definition sub_noise :: "string \<Rightarrow> string" where
  "sub_noise s = map (\<lambda>c. if is_az c \<or> isdigit c \<or> isspace c then c else CHR '' '') s"

fun sub_spaces :: "bool \<Rightarrow> string \<Rightarrow> string" where
  "sub_spaces in_run [] = []"
| "sub_spaces in_run (c # cs) =
     (if isspace c then (if in_run then sub_spaces True cs else CHR '' '' # sub_spaces True cs)
      else c # sub_spaces False cs)"

definition normalize_text :: "string \<Rightarrow> bool \<Rightarrow> string" where
  "normalize_text text keep_spaces =
     (if text = [] then []
      else let cleaned = strip_accents (lower text);
               cleaned = sub_noise cleaned;
               cleaned = strip (sub_spaces False cleaned)
           in if keep_spaces then cleaned else replace_char (CHR '' '') [] cleaned)"

fun tokenize_loop :: "string list \<Rightarrow> string list" where
  "tokenize_loop [] = []"
| "tokenize_loop (token # rest) =
     (let mapped = (case map_of SYNONYMS token of None \<Rightarrow> token | Some m \<Rightarrow> m)
      in if mapped \<notin> set STOPWORDS_FR_EN \<and> length mapped > 1
         then mapped # tokenize_loop rest else tokenize_loop rest)"

definition tokenize :: "string \<Rightarrow> string list" where
  "tokenize text =
     (let normalized = normalize_text text True
      in if normalized = [] then [] else tokenize_loop (split_ws normalized))"

section \<open>utils.py: the numeric field parser\<close>

text \<open>\<open>float(s)\<close> on a string of digits, periods and minus signs (all that the last
  substitution of \<open>parse_numeric\<close> leaves): an optional leading minus, then digits with at
  most one period and at least one digit. \<open>None\<close> stands for \<open>ValueError\<close>.\<close>

definition digits_val :: "string \<Rightarrow> int" where
  "digits_val ds = foldl (\<lambda>acc d. 10 * acc + int (code d - 48)) 0 ds"

definition unsigned_val :: "string \<Rightarrow> real option" where
  "unsigned_val body =
     (let ip = takeWhile isdigit body; rest = dropWhile isdigit body
      in case rest of
           [] \<Rightarrow> if ip = [] then None else Some (real_of_int (digits_val ip))
         | c # fp \<Rightarrow>
             if c = CHR ''.'' \<and> list_all isdigit fp \<and> (ip \<noteq> [] \<or> fp \<noteq> [])
             then Some (real_of_int (digits_val ip) + real_of_int (digits_val fp) / 10 ^ length fp)
             else None)"

definition float_of_str :: "string \<Rightarrow> real option" where
  "float_of_str s =
     (case s of
        [] \<Rightarrow> None
      | c # body \<Rightarrow>
          if c = CHR ''-'' then map_option uminus (unsigned_val body) else unsigned_val s)"

text \<open>The comma policy of \<open>parse_numeric\<close> (the \<open>if "," in cleaned and "." not in cleaned\<close>
  block), on the string left after the spaces and percent signs are gone.\<close>

definition comma_policy :: "string \<Rightarrow> string" where
  "comma_policy cleaned =
     (if CHR '','' \<in> set cleaned \<and> CHR ''.'' \<notin> set cleaned then
        if count_list cleaned (CHR '','') = 1 \<and> length (split_char (CHR '','') cleaned ! 1) \<le> 2
        then replace_char (CHR '','') ''.'' cleaned
        else replace_char (CHR '','') [] cleaned
      else cleaned)"

definition parse_numeric :: "string option \<Rightarrow> real option" where
  "parse_numeric v =
     (case v of
        None \<Rightarrow> None
      | Some s \<Rightarrow>
          let raw = strip s in
          if raw = [] then None
          else let cleaned = replace_char (CHR '' '') [] raw;
                   cleaned = replace_char (CHR ''%'') [] cleaned;
                   cleaned = comma_policy cleaned;
                   cleaned = filter (\<lambda>c. isdigit c \<or> c = CHR ''.'' \<or> c = CHR ''-'') cleaned
               in if cleaned = [] \<or> cleaned = ''-'' \<or> cleaned = ''.'' then None
                  else float_of_str cleaned)"

text \<open>The input as the comma decision sees it: whitespace stripped, then the spaces and
  the percent signs removed; the characters that follow its first comma; and what the
  parser reads in a string once the comma decision is taken.\<close>

definition spaceless :: "string \<Rightarrow> string" where
  "spaceless s = replace_char (CHR ''%'') [] (replace_char (CHR '' '') [] (strip s))"

definition after_comma :: "string \<Rightarrow> string" where
  "after_comma s = tl (dropWhile (\<lambda>c. c \<noteq> CHR '','') s)"

definition numeric_value :: "string \<Rightarrow> real option" where
  "numeric_value s =
     (let cleaned = filter (\<lambda>c. isdigit c \<or> c = CHR ''.'' \<or> c = CHR ''-'') s
      in if cleaned = [] \<or> cleaned = ''-'' \<or> cleaned = ''.'' then None else float_of_str cleaned)"

section \<open>utils.py: column detection\<close>

definition COLUMN_CANDIDATES :: "(string \<times> string list) list" where
  "COLUMN_CANDIDATES =
    [(''title'', [''title'', ''name'', ''product_name'', ''nom'', ''titre'', ''product'']),
     (''description'', [''description'', ''desc'', ''details'', ''content'']),
     (''price'', [''price'', ''selling_price'', ''prix'', ''amount'', ''cost'']),
     (''rating'', [''rating'', ''average_rating'', ''note'', ''stars'']),
     (''image_url'', [''image_url'', ''image'', ''images'', ''thumbnail'', ''photo'']),
     (''category'', [''category'', ''categorie'', ''sub_category'', ''type'', ''department'']),
     (''brand'', [''brand'', ''marque'', ''maker'']),
     (''url'', [''url'', ''product_url'', ''link'', ''href''])]"

text \<open>Truth value of an \<open>Optional[str]\<close>: \<open>None\<close> and the empty string are false.\<close>

definition truthy :: "string option \<Rightarrow> bool" where
  "truthy v = (case v of None \<Rightarrow> False | Some s \<Rightarrow> s \<noteq> [])"

text \<open>The result maps each canonical field to the chosen column (\<open>None\<close> is Python's
  \<open>None\<close>). A dict comprehension keeps the last value of a repeated key, hence the
  reversal before \<^const>\<open>map_of\<close>, which keeps the first.\<close>

definition detect_columns :: "string list \<Rightarrow> (string \<rightharpoonup> string) \<Rightarrow> string \<Rightarrow> string option" where
  "detect_columns headers override =
     (let available = map strip (filter (\<lambda>h. h \<noteq> []) headers);
          normalized_to_original = map_of (rev (map (\<lambda>h. (normalize_text h False, h)) available));
          mapping = (\<lambda>canonical. case override canonical of
                        None \<Rightarrow> None
                      | Some chosen \<Rightarrow> if chosen \<in> set available then Some chosen else None)
      in (\<lambda>canonical.
            case map_of COLUMN_CANDIDATES canonical of
              None \<Rightarrow> mapping canonical
            | Some candidates \<Rightarrow>
                if truthy (mapping canonical) then mapping canonical
                else (case List.find (\<lambda>candidate. normalized_to_original (normalize_text candidate False) \<noteq> None)
                             candidates of
                        None \<Rightarrow> mapping canonical
                      | Some candidate \<Rightarrow> normalized_to_original (normalize_text candidate False))))"

section \<open>search.py: the engine and its index\<close>

record Product =
  prod_id :: nat
  title :: string
  description :: string
  category :: string
  brand :: string
  price :: "real option"
  rating :: "real option"
  image_url :: string
  url :: string
  searchable_text :: string

record SearchResult =
  product :: Product
  score :: real
  tfidf_score :: real
  fuzzy_score :: real
  category_bonus :: real
  matched_tokens :: "string list"

text \<open>A sparse vector is a dict from token to weight: an association list in insertion
  order. The IDF table is only ever looked up, so it is a map.\<close>

type_synonym vector = "(string \<times> real) list"

record ProductSearchEngine =
  csv_path :: string
  column_override :: "string \<rightharpoonup> string"
  products :: "Product list"
  doc_vectors :: "vector list"
  doc_norms :: "real list"
  idf :: "string \<rightharpoonup> real"
  categories :: "string list"
  last_index_build_ms :: real

text \<open>What \<open>csv.DictReader\<close> yields for a file: the field names (\<open>None\<close> for a file
  without a first line) and one dict per data row. A row maps a column name to its cell;
  the cell of a row that is too short is Python's \<open>None\<close>. A file system maps a path to
  such a file, or to nothing.\<close>

type_synonym row = "string \<rightharpoonup> string option"

record csv_file =
  fieldnames :: "string list option"
  rows :: "row list"

datatype load_failure = No_Headers | No_Title_Column | No_Valid_Product

datatype error = FileNotFoundError | ValueError load_failure | AttributeError | IndexError

definition then_do :: "error + 'a \<Rightarrow> ('a \<Rightarrow> error + 'b) \<Rightarrow> error + 'b" where
  "then_do r f = (case r of Inl e \<Rightarrow> Inl e | Inr x \<Rightarrow> f x)"

text \<open>\<open>(row.get(col, "") if col else "").strip()\<close>: stripping \<open>None\<close> raises.\<close>

definition get_text :: "row \<Rightarrow> string option \<Rightarrow> error + string" where
  "get_text r col =
     (if truthy col then
        (case r (the col) of
           None \<Rightarrow> Inr (strip [])
         | Some None \<Rightarrow> Inl AttributeError
         | Some (Some s) \<Rightarrow> Inr (strip s))
      else Inr (strip []))"

text \<open>\<open>parse_numeric(row.get(col) if col else None)\<close>.\<close>

definition get_number :: "row \<Rightarrow> string option \<Rightarrow> real option" where
  "get_number r col =
     parse_numeric (if truthy col then (case r (the col) of None \<Rightarrow> None | Some v \<Rightarrow> v) else None)"

text \<open>The body of the row loop of \<open>load_data\<close>: \<open>Inr None\<close> is the \<open>continue\<close> of a row
  whose title is empty, \<open>Inr (Some (product, merged_tokens))\<close> a kept row.\<close>

definition load_row :: "(string \<Rightarrow> string option) \<Rightarrow> nat \<Rightarrow> row \<Rightarrow> error + (Product \<times> string list) option" where
  "load_row columns idx r =
     then_do (get_text r (columns ''title'')) (\<lambda>title_s.
       if title_s = [] then Inr None else
     then_do (get_text r (columns ''description'')) (\<lambda>description_s.
     then_do (get_text r (columns ''category'')) (\<lambda>category_s.
     then_do (get_text r (columns ''brand'')) (\<lambda>brand_s.
     then_do (get_text r (columns ''image_url'')) (\<lambda>image_url_s.
     then_do (get_text r (columns ''url'')) (\<lambda>url_s.
       let price_v = get_number r (columns ''price'');
           rating_v = get_number r (columns ''rating'');
           text_parts = [title_s, description_s, category_s, brand_s];
           merged_tokens = tokenize (join_sp (filter (\<lambda>part. part \<noteq> []) text_parts))
       in Inr (Some (\<lparr>prod_id = idx, title = title_s, description = description_s,
                      category = category_s, brand = brand_s, price = price_v,
                      rating = rating_v, image_url = image_url_s, url = url_s,
                      searchable_text = join_sp merged_tokens\<rparr>, merged_tokens))))))))"

text \<open>The row loop, \<open>for idx, row in enumerate(reader)\<close>, with its three accumulators.\<close>

fun load_rows :: "(string \<Rightarrow> string option) \<Rightarrow> nat \<Rightarrow> row list \<Rightarrow>
    Product list \<times> string set \<times> string list list \<Rightarrow> error + Product list \<times> string set \<times> string list list" where
  "load_rows columns idx [] acc = Inr acc"
| "load_rows columns idx (r # rs) (prods, category_set, tokenized_docs) =
     then_do (load_row columns idx r) (\<lambda>res.
       case res of
         None \<Rightarrow> load_rows columns (idx + 1) rs (prods, category_set, tokenized_docs)
       | Some (p, merged_tokens) \<Rightarrow>
           load_rows columns (idx + 1) rs
             (prods @ [p],
              (if category p \<noteq> [] then insert (category p) category_set else category_set),
              tokenized_docs @ [merged_tokens]))"

subsection \<open>\<open>_build_tfidf\<close>\<close>

text \<open>\<open>doc_freq[token] += 1\<close> on a \<open>defaultdict(int)\<close>.\<close>

definition bump :: "(string \<rightharpoonup> nat) \<Rightarrow> string \<Rightarrow> (string \<rightharpoonup> nat)" where
  "bump doc_freq token = doc_freq(token \<mapsto> (case doc_freq token of None \<Rightarrow> 0 | Some n \<Rightarrow> n) + 1)"

text \<open>The two nested loops. A Python set is iterated in an order of its own; the
  increments commute, and the model takes the tokens of a document in the order of
  their first occurrence.\<close>

definition count_doc_freq :: "string list list \<Rightarrow> (string \<rightharpoonup> nat)" where
  "count_doc_freq tokenized_docs =
     foldl (\<lambda>doc_freq tokens. foldl bump doc_freq (remdups tokens)) Map.empty tokenized_docs"

definition build_idf :: "string list list \<Rightarrow> (string \<rightharpoonup> real)" where
  "build_idf tokenized_docs =
     (let doc_count = length tokenized_docs; doc_freq = count_doc_freq tokenized_docs
      in (\<lambda>token. case doc_freq token of
            None \<Rightarrow> None
          | Some freq \<Rightarrow> Some (ln ((1 + real doc_count) / (1 + real freq)) + 1)))"

text \<open>\<open>Counter(tokens)\<close>: the tokens in the order of their first occurrence, each with
  its number of occurrences.\<close>

fun counter_add :: "string \<Rightarrow> (string \<times> nat) list \<Rightarrow> (string \<times> nat) list" where
  "counter_add t [] = [(t, 1)]"
| "counter_add t ((k, n) # rest) = (if k = t then (k, n + 1) # rest else (k, n) # counter_add t rest)"

definition Counter :: "string list \<Rightarrow> (string \<times> nat) list" where
  "Counter tokens = foldl (\<lambda>counts t. counter_add t counts) [] tokens"

definition norm_of :: "vector \<Rightarrow> real" where
  "norm_of vec = sqrt (sum_list (map (\<lambda>(token, v). v * v) vec))"

definition doc_vector :: "(string \<rightharpoonup> real) \<Rightarrow> string list \<Rightarrow> vector" where
  "doc_vector idf_table tokens =
     (let counts = Counter tokens;
          total = (if length tokens = 0 then 1 else length tokens)
      in map (\<lambda>(token, count).
                (token, (real count / real total) * (case idf_table token of None \<Rightarrow> 0 | Some w \<Rightarrow> w)))
             counts)"

definition build_tfidf :: "string list list \<Rightarrow> ProductSearchEngine \<Rightarrow> ProductSearchEngine" where
  "build_tfidf tokenized_docs self =
     (let idf_table = build_idf tokenized_docs;
          vectors = map (doc_vector idf_table) tokenized_docs
      in self\<lparr>idf := idf_table, doc_vectors := vectors, doc_norms := map norm_of vectors\<rparr>)"

subsection \<open>\<open>load_data\<close>\<close>

text \<open>The part of \<open>load_data\<close> that reads: it touches no field of the engine. The file
  system \<open>fs\<close> stands for \<open>open\<close> and \<open>csv.DictReader\<close>.\<close>

definition read_catalog :: "(string \<rightharpoonup> csv_file) \<Rightarrow> ProductSearchEngine \<Rightarrow>
    error + Product list \<times> string set \<times> string list list" where
  "read_catalog fs self =
     (case fs (csv_path self) of
        None \<Rightarrow> Inl FileNotFoundError
      | Some f \<Rightarrow>
          (case fieldnames f of
             None \<Rightarrow> Inl (ValueError No_Headers)
           | Some names \<Rightarrow>
               if names = [] then Inl (ValueError No_Headers)
               else let columns = detect_columns names (column_override self)
                    in if \<not> truthy (columns ''title'') then Inl (ValueError No_Title_Column)
                       else then_do (load_rows columns 0 (rows f) ([], {}, [])) (\<lambda>(prods, category_set, tokenized_docs).
                              if prods = [] then Inl (ValueError No_Valid_Product)
                              else Inr (prods, category_set, tokenized_docs))))"

text \<open>\<open>load_data\<close> returns the raised error, if any, and the engine as the call leaves it.
  \<open>start\<close> and \<open>stop\<close> are the two readings of \<open>time.perf_counter\<close>.\<close>

definition load_data :: "(string \<rightharpoonup> csv_file) \<Rightarrow> real \<Rightarrow> real \<Rightarrow> ProductSearchEngine \<Rightarrow>
    error option \<times> ProductSearchEngine" where
  "load_data fs start stop self =
     (case read_catalog fs self of
        Inl e \<Rightarrow> (Some e, self)
      | Inr (prods, category_set, tokenized_docs) \<Rightarrow>
          (let self = self\<lparr>products := prods\<rparr>;
               self = build_tfidf tokenized_docs self;
               self = self\<lparr>categories := sorted_list_of_set category_set\<rparr>;
               self = self\<lparr>last_index_build_ms := (stop - start) * 1000\<rparr>
           in (None, self)))"

text \<open>The constructor: the fields are initialised, then \<open>load_data\<close> runs; an error
  leaves no engine behind.\<close>

definition new_engine :: "(string \<rightharpoonup> csv_file) \<Rightarrow> real \<Rightarrow> real \<Rightarrow> string \<Rightarrow> (string \<rightharpoonup> string) \<Rightarrow>
    error + ProductSearchEngine" where
  "new_engine fs start stop path override =
     (case load_data fs start stop
             \<lparr>csv_path = path, column_override = override, products = [], doc_vectors = [],
              doc_norms = [], idf = Map.empty, categories = [], last_index_build_ms = 0\<rparr> of
        (Some e, _) \<Rightarrow> Inl e
      | (None, self) \<Rightarrow> Inr self)"

section \<open>The standard library's \<open>difflib.SequenceMatcher\<close>\<close>

text \<open>
  \<open>_fuzzy_score\<close> calls \<open>SequenceMatcher(None, q, t).ratio()\<close>: no junk predicate, and
  \<open>autojunk\<close> left at its default \<open>True\<close>. The model follows CPython's \<open>difflib\<close>:
  \<open>__chain_b\<close> indexes the second string, \<open>find_longest_match\<close> finds the first longest
  block of a window made of indexed characters and extends it at both ends,
  \<open>get_matching_blocks\<close> applies it to the whole strings and then to the windows left and
  right of each block found, and \<open>ratio\<close> is twice the matched length over the sum of
  the two lengths.
\<close>

text \<open>\<open>__chain_b\<close>: \<open>b2j\<close> maps a character to the ascending list of its positions in \<open>b\<close>.
  When \<open>b\<close> has 200 characters or more, a character found at more than
  \<open>len(b) // 100 + 1\<close> positions is popular and loses its entry. The junk set is empty.\<close>

definition popular :: "string \<Rightarrow> char \<Rightarrow> bool" where
  "popular b c = (200 \<le> length b \<and> length b div 100 + 1 < count_list b c)"

definition b2j :: "string \<Rightarrow> char \<Rightarrow> nat list" where
  "b2j b c = (if popular b c then [] else filter (\<lambda>j. b ! j = c) [0..<length b])"

type_synonym match = "nat \<times> nat \<times> nat"

text \<open>The inner loop of \<open>find_longest_match\<close>, \<open>for j in b2j.get(a[i], nothing)\<close>:
  \<open>j < blo\<close> continues, \<open>j >= bhi\<close> breaks, and \<open>j2lenget j2len j\<close> is
  \<open>j2len.get(j - 1, 0)\<close>, a read of the row before (no key is negative).\<close>

definition j2lenget :: "(nat \<rightharpoonup> nat) \<Rightarrow> nat \<Rightarrow> nat" where
  "j2lenget j2len j = (case (if j = 0 then None else j2len (j - 1)) of None \<Rightarrow> 0 | Some v \<Rightarrow> v)"

fun row_loop :: "nat \<Rightarrow> nat \<Rightarrow> nat \<Rightarrow> (nat \<rightharpoonup> nat) \<Rightarrow> nat list \<Rightarrow> (nat \<rightharpoonup> nat) \<times> match \<Rightarrow> (nat \<rightharpoonup> nat) \<times> match" where
  "row_loop blo bhi i j2len [] st = st"
| "row_loop blo bhi i j2len (j # js) (newj2len, besti, bestj, bestsize) =
     (if j < blo then row_loop blo bhi i j2len js (newj2len, besti, bestj, bestsize)
      else if bhi \<le> j then (newj2len, besti, bestj, bestsize)
      else let k = j2lenget j2len j + 1
           in row_loop blo bhi i j2len js
                (newj2len(j \<mapsto> k),
                 if bestsize < k then (i + 1 - k, j + 1 - k, k) else (besti, bestj, bestsize)))"

text \<open>The outer loop, \<open>for i in range(alo, ahi)\<close>.\<close>

fun main_loop :: "string \<Rightarrow> string \<Rightarrow> nat \<Rightarrow> nat \<Rightarrow> nat list \<Rightarrow> (nat \<rightharpoonup> nat) \<times> match \<Rightarrow> match" where
  "main_loop a b blo bhi [] (j2len, best) = best"
| "main_loop a b blo bhi (i # rest) (j2len, best) =
     main_loop a b blo bhi rest (row_loop blo bhi i j2len (b2j b (a ! i)) (Map.empty, best))"

text \<open>The two extension loops that run when nothing is junk (the other two test
  membership in the empty junk set and never run).\<close>

fun extend_back :: "string \<Rightarrow> string \<Rightarrow> nat \<Rightarrow> nat \<Rightarrow> match \<Rightarrow> match" where
  "extend_back a b alo blo (besti, bestj, bestsize) =
     (if alo < besti \<and> blo < bestj \<and> a ! (besti - 1) = b ! (bestj - 1)
      then extend_back a b alo blo (besti - 1, bestj - 1, bestsize + 1)
      else (besti, bestj, bestsize))"

function extend_fwd :: "string \<Rightarrow> string \<Rightarrow> nat \<Rightarrow> nat \<Rightarrow> match \<Rightarrow> match" where
  "extend_fwd a b ahi bhi (besti, bestj, bestsize) =
     (if besti + bestsize < ahi \<and> bestj + bestsize < bhi \<and> a ! (besti + bestsize) = b ! (bestj + bestsize)
      then extend_fwd a b ahi bhi (besti, bestj, bestsize + 1)
      else (besti, bestj, bestsize))"
  by pat_completeness auto
termination
  by (relation "measure (\<lambda>(a, b, ahi, bhi, besti, bestj, bestsize). ahi - (besti + bestsize))") auto

definition find_longest_match :: "string \<Rightarrow> string \<Rightarrow> nat \<Rightarrow> nat \<Rightarrow> nat \<Rightarrow> nat \<Rightarrow> match" where
  "find_longest_match a b alo ahi blo bhi =
     extend_fwd a b ahi bhi
       (extend_back a b alo blo
          (main_loop a b blo bhi [alo..<ahi] (Map.empty, alo, blo, 0)))"

subsection \<open>The block found lies in its window\<close>

text \<open>Invariants of the loops of \<open>find_longest_match\<close>: a stored run length fits
  between the window's lower ends and the cell it ends in, and the best block is either
  the empty one at the window's lower ends or a non-empty one inside the rows done.\<close>

definition j2len_ok :: "nat \<Rightarrow> nat \<Rightarrow> nat \<Rightarrow> (nat \<rightharpoonup> nat) \<Rightarrow> bool" where
  "j2len_ok alo blo i m = (\<forall>j k. m j = Some k \<longrightarrow> k + alo \<le> i \<and> k + blo \<le> j + 1)"

fun best_ok :: "nat \<Rightarrow> nat \<Rightarrow> nat \<Rightarrow> nat \<Rightarrow> match \<Rightarrow> bool" where
  "best_ok alo blo bhi i (bi, bj, bs) =
     (alo \<le> bi \<and> blo \<le> bj \<and> (bs = 0 \<and> bi = alo \<and> bj = blo \<or> 0 < bs \<and> bi + bs \<le> i \<and> bj + bs \<le> bhi))"

lemma row_loop_ok:
  assumes "j2len_ok alo blo i j2len" "alo \<le> i"
    and "j2len_ok alo blo (Suc i) new" "best_ok alo blo bhi (Suc i) best"
  shows "j2len_ok alo blo (Suc i) (fst (row_loop blo bhi i j2len js (new, best)))
       \<and> best_ok alo blo bhi (Suc i) (snd (row_loop blo bhi i j2len js (new, best)))"
  using assms(3,4)
proof (induction js arbitrary: new best)
  case Nil
  then show ?case by simp
next
  case (Cons j js)
  obtain bi bj bs where best: "best = (bi, bj, bs)" by (cases best)
  show ?case
  proof (cases "j < blo \<or> bhi \<le> j")
    case True
    then show ?thesis using Cons best by auto
  next
    case False
    define k where "k = j2lenget j2len j + 1"
    have kb: "k + alo \<le> Suc i \<and> k + blo \<le> j + 1 \<and> 0 < k"
    proof (cases "j = 0 \<or> j2len (j - 1) = None")
      case True
      then have "k = 1" unfolding k_def j2lenget_def by auto
      then show ?thesis using assms(2) False by simp
    next
      case F: False
      then obtain v where v: "j2len (j - 1) = Some v" by auto
      then have "k = v + 1" using F unfolding k_def j2lenget_def by simp
      moreover have "v + alo \<le> i \<and> v + blo \<le> j - 1 + 1"
        using assms(1) v unfolding j2len_ok_def by blast
      ultimately show ?thesis using F by simp
    qed
    have n1: "j2len_ok alo blo (Suc i) (new(j \<mapsto> k))"
      using Cons.prems(1) kb unfolding j2len_ok_def by auto
    have n2: "best_ok alo blo bhi (Suc i) (if bs < k then (i + 1 - k, j + 1 - k, k) else (bi, bj, bs))"
      using Cons.prems(2) kb False best by auto
    have step: "row_loop blo bhi i j2len (j # js) (new, best) =
        row_loop blo bhi i j2len js (new(j \<mapsto> k), if bs < k then (i + 1 - k, j + 1 - k, k) else (bi, bj, bs))"
      using False best by (simp add: k_def Let_def)
    show ?thesis
      unfolding step by (rule Cons.IH[OF n1 n2])
  qed
qed

lemma best_ok_mono: "best_ok alo blo bhi i best \<Longrightarrow> i \<le> i' \<Longrightarrow> best_ok alo blo bhi i' best"
  by (cases best) auto

lemma main_loop_ok:
  assumes "j2len_ok alo blo i j2len" "best_ok alo blo bhi i best" "alo \<le> i"
  shows "best_ok alo blo bhi (max i ahi) (main_loop a b blo bhi [i..<ahi] (j2len, best))"
  using assms
proof (induction "ahi - i" arbitrary: i j2len best)
  case 0
  then show ?case by (simp add: max_def)
next
  case (Suc n)
  then have lt: "i < ahi" by simp
  then have up: "[i..<ahi] = i # [Suc i..<ahi]" by (simp add: upt_conv_Cons)
  let ?st = "row_loop blo bhi i j2len (b2j b (a ! i)) (Map.empty, best)"
  have e: "j2len_ok alo blo (Suc i) Map.empty" by (simp add: j2len_ok_def)
  have r: "j2len_ok alo blo (Suc i) (fst ?st) \<and> best_ok alo blo bhi (Suc i) (snd ?st)"
    using row_loop_ok[OF Suc.prems(1) Suc.prems(3) e best_ok_mono[OF Suc.prems(2)]] by simp
  have "best_ok alo blo bhi (max (Suc i) ahi) (main_loop a b blo bhi [Suc i..<ahi] (fst ?st, snd ?st))"
    using Suc.hyps(1)[of "Suc i" "fst ?st" "snd ?st"] Suc.hyps(2) r Suc.prems(3) by simp
  then show ?case using up lt by (simp add: max_def)
qed

declare extend_back.simps [simp del] extend_fwd.simps [simp del]

lemma extend_back_step:
  assumes "alo < besti \<and> blo < bestj \<and> a ! (besti - 1) = b ! (bestj - 1)"
  shows "extend_back a b alo blo (besti, bestj, bestsize) =
         extend_back a b alo blo (besti - 1, bestj - 1, bestsize + 1)"
  by (subst extend_back.simps) (use assms in \<open>simp only: if_True simp_thms\<close>)

lemma extend_back_stop:
  assumes "\<not> (alo < besti \<and> blo < bestj \<and> a ! (besti - 1) = b ! (bestj - 1))"
  shows "extend_back a b alo blo (besti, bestj, bestsize) = (besti, bestj, bestsize)"
  by (subst extend_back.simps) (use assms in \<open>simp only: if_False simp_thms\<close>)

lemma extend_fwd_step:
  assumes "besti + bestsize < ahi \<and> bestj + bestsize < bhi \<and>
           a ! (besti + bestsize) = b ! (bestj + bestsize)"
  shows "extend_fwd a b ahi bhi (besti, bestj, bestsize) =
         extend_fwd a b ahi bhi (besti, bestj, bestsize + 1)"
  by (subst extend_fwd.simps) (use assms in \<open>simp only: if_True simp_thms\<close>)

lemma extend_fwd_stop:
  assumes "\<not> (besti + bestsize < ahi \<and> bestj + bestsize < bhi \<and>
              a ! (besti + bestsize) = b ! (bestj + bestsize))"
  shows "extend_fwd a b ahi bhi (besti, bestj, bestsize) = (besti, bestj, bestsize)"
  by (subst extend_fwd.simps) (use assms in \<open>simp only: if_False simp_thms\<close>)

lemma extend_back_ok:
  "best_ok alo blo bhi i best \<Longrightarrow> best_ok alo blo bhi i (extend_back a b alo blo best)"
proof (induction a b alo blo best rule: extend_back.induct)
  case (1 a b alo blo besti bestj bestsize)
  show ?case
  proof (cases "alo < besti \<and> blo < bestj \<and> a ! (besti - 1) = b ! (bestj - 1)")
    case True
    have "best_ok alo blo bhi i (besti - 1, bestj - 1, bestsize + 1)"
      using "1.prems" True by auto
    from "1.IH"[OF True this] show ?thesis
      by (simp only: extend_back_step[OF True])
  next
    case False
    show ?thesis using "1.prems" by (simp only: extend_back_stop[OF False])
  qed
qed

lemma extend_fwd_ok:
  "best_ok alo blo bhi ahi best \<Longrightarrow> best_ok alo blo bhi ahi (extend_fwd a b ahi bhi best)"
proof (induction a b ahi bhi best rule: extend_fwd.induct)
  case (1 a b ahi bhi besti bestj bestsize)
  show ?case
  proof (cases "besti + bestsize < ahi \<and> bestj + bestsize < bhi \<and> a ! (besti + bestsize) = b ! (bestj + bestsize)")
    case True
    have "best_ok alo blo bhi ahi (besti, bestj, bestsize + 1)"
      using "1.prems" True by auto
    from "1.IH"[OF True this] show ?thesis
      by (simp only: extend_fwd_step[OF True])
  next
    case False
    show ?thesis using "1.prems" by (simp only: extend_fwd_stop[OF False])
  qed
qed

lemma main_loop_degenerate:
  "ahi \<le> alo \<Longrightarrow> main_loop a b blo bhi [alo..<ahi] (m, best) = best"
  by simp

lemma find_longest_match_ok:
  "best_ok alo blo bhi (max alo ahi) (find_longest_match a b alo ahi blo bhi)"
proof -
  have 0: "j2len_ok alo blo alo Map.empty" by (simp add: j2len_ok_def)
  have 1: "best_ok alo blo bhi alo (alo, blo, 0)" by simp
  have m: "best_ok alo blo bhi (max alo ahi) (main_loop a b blo bhi [alo..<ahi] (Map.empty, alo, blo, 0))"
    using main_loop_ok[OF 0 1, of ahi a b] by simp
  show ?thesis
  proof (cases "alo \<le> ahi")
    case True
    then have "max alo ahi = ahi" by simp
    with m show ?thesis unfolding find_longest_match_def
      using extend_fwd_ok extend_back_ok by metis
  next
    case False
    then have e: "main_loop a b blo bhi [alo..<ahi] (Map.empty, alo, blo, 0) = (alo, blo, 0)" by simp
    show ?thesis unfolding find_longest_match_def e
      using False by (simp add: extend_back_stop extend_fwd_stop)
  qed
qed

lemma find_longest_match_bounds:
  assumes "find_longest_match a b alo ahi blo bhi = (i, j, k)" "k \<noteq> 0"
  shows "alo \<le> i \<and> i + k \<le> ahi \<and> blo \<le> j \<and> j + k \<le> bhi"
proof -
  have ok: "best_ok alo blo bhi (max alo ahi) (i, j, k)"
    using find_longest_match_ok[of alo blo bhi ahi a b] assms(1) by simp
  show ?thesis
  proof (cases "alo \<le> ahi")
    case True
    then show ?thesis using ok assms(2) by (auto simp: max_def)
  next
    case False
    then have "find_longest_match a b alo ahi blo bhi = (alo, blo, 0)"
      unfolding find_longest_match_def by (simp add: extend_back_stop extend_fwd_stop)
    then show ?thesis using assms by simp
  qed
qed

subsection \<open>\<open>get_matching_blocks\<close> and \<open>ratio\<close>\<close>

text \<open>\<open>get_matching_blocks\<close> works off a queue of windows; the blocks it collects are
  sorted afterwards, and adjacent ones merged. The recursion below yields the blocks in
  that sorted order. \<open>ratio\<close> sums their sizes, which neither the order nor the
  merging changes (the closing dummy block has size 0).\<close>

function matching_blocks :: "string \<Rightarrow> string \<Rightarrow> nat \<Rightarrow> nat \<Rightarrow> nat \<Rightarrow> nat \<Rightarrow> match list" where
  "matching_blocks a b alo ahi blo bhi =
     (case find_longest_match a b alo ahi blo bhi of
        (i, j, k) \<Rightarrow>
          if k = 0 then []
          else (if alo < i \<and> blo < j then matching_blocks a b alo i blo j else [])
               @ [(i, j, k)]
               @ (if i + k < ahi \<and> j + k < bhi then matching_blocks a b (i + k) ahi (j + k) bhi else []))"
  by pat_completeness auto
termination
proof (relation "measure (\<lambda>(a, b, alo, ahi, blo, bhi). ahi - alo)", goal_cases)
  case 1
  then show ?case by simp
next
  case (2 a b alo ahi blo bhi i rest j k)
  then have "find_longest_match a b alo ahi blo bhi = (i, j, k)" by (metis)
  from find_longest_match_bounds[OF this] 2 show ?case by auto
next
  case (3 a b alo ahi blo bhi i rest j k)
  then have "find_longest_match a b alo ahi blo bhi = (i, j, k)" by (metis)
  from find_longest_match_bounds[OF this] 3 show ?case by auto
qed

declare matching_blocks.simps [simp del]

definition ratio :: "string \<Rightarrow> string \<Rightarrow> real" where
  "ratio a b =
     (let matches = sum_list (map (\<lambda>(i, j, k). k) (matching_blocks a b 0 (length a) 0 (length b)));
          len = length a + length b
      in if len \<noteq> 0 then 2 * real matches / real len else 1)"

section \<open>search.py: scoring and search\<close>

definition query_vector :: "ProductSearchEngine \<Rightarrow> string list \<Rightarrow> vector \<times> real" where
  "query_vector self qtokens =
     (let counts = Counter qtokens;
          total = (if length qtokens = 0 then 1 else length qtokens);
          vec = concat (map (\<lambda>(token, count).
                               case idf self token of
                                 None \<Rightarrow> []
                               | Some w \<Rightarrow> [(token, (real count / real total) * w)])
                            counts)
      in (vec, norm_of vec))"

text \<open>\<open>dvec.get(token, 0.0)\<close> is a lookup in the association list.\<close>

definition cosine_similarity :: "vector \<Rightarrow> real \<Rightarrow> vector \<Rightarrow> real \<Rightarrow> real" where
  "cosine_similarity qvec qnorm dvec dnorm =
     (if qnorm = 0 \<or> dnorm = 0 then 0
      else let dot = sum_list (map (\<lambda>(token, weight).
                                       weight * (case map_of dvec token of None \<Rightarrow> 0 | Some w \<Rightarrow> w))
                                    qvec)
           in dot / (qnorm * dnorm))"

text \<open>\<open>_fuzzy_score\<close> (the record field of the same name holds its result).\<close>

definition compute_fuzzy_score :: "string list \<Rightarrow> string \<Rightarrow> real" where
  "compute_fuzzy_score qtokens title_s =
     (let title_tokens = tokenize title_s
      in if title_tokens = [] then 0
         else let q = join_sp (sorted_set qtokens);
                  t = join_sp (sorted_set title_tokens)
              in ratio q t)"

text \<open>The four filter tests at the head of the loop of \<open>search\<close>; each one that holds
  is a \<open>continue\<close>. The category test is \<open>if category and ...\<close>: the empty string is
  false, as \<open>None\<close> is.\<close>

definition filtered_out :: "real option \<Rightarrow> real option \<Rightarrow> string option \<Rightarrow> real option \<Rightarrow> Product \<Rightarrow> bool" where
  "filtered_out min_price max_price cat min_rating p =
     ((case min_price of None \<Rightarrow> False
       | Some lo \<Rightarrow> (case price p of None \<Rightarrow> True | Some v \<Rightarrow> v < lo)) \<or>
      (case max_price of None \<Rightarrow> False
       | Some hi \<Rightarrow> (case price p of None \<Rightarrow> True | Some v \<Rightarrow> hi < v)) \<or>
      (case cat of None \<Rightarrow> False | Some c \<Rightarrow> c \<noteq> [] \<and> category p \<noteq> c) \<or>
      (case min_rating of None \<Rightarrow> False
       | Some lo \<Rightarrow> (case rating p of None \<Rightarrow> True | Some v \<Rightarrow> v < lo)))"

definition bonus_of :: "string list \<Rightarrow> Product \<Rightarrow> real" where
  "bonus_of qtokens p =
     (let token_set = set qtokens;
          bonus = 0;
          bonus = (if category p \<noteq> [] \<and> token_set \<inter> set (tokenize (category p)) \<noteq> {}
                   then bonus + 0.12 else bonus);
          bonus = (if brand p \<noteq> [] \<and> token_set \<inter> set (tokenize (brand p)) \<noteq> {}
                   then bonus + 0.08 else bonus)
      in bonus)"

text \<open>The scoring of one product that passed the filters. \<open>self.doc_vectors[idx]\<close> and
  \<open>self.doc_norms[idx]\<close> raise \<open>IndexError\<close> out of range.\<close>

definition score_product :: "ProductSearchEngine \<Rightarrow> string list \<Rightarrow> vector \<Rightarrow> real \<Rightarrow> nat \<Rightarrow> Product \<Rightarrow> error + SearchResult" where
  "score_product self qtokens qvec qnorm idx p =
     (if length (doc_vectors self) \<le> idx \<or> length (doc_norms self) \<le> idx then Inl IndexError
      else let tfidf = cosine_similarity qvec qnorm (doc_vectors self ! idx) (doc_norms self ! idx);
               fuzzy = compute_fuzzy_score qtokens (title p);
               matched = sorted_set (filter (\<lambda>t. t \<in> set (split_ws (searchable_text p))) qtokens);
               bonus = bonus_of qtokens p;
               final_score = (0.72 * tfidf) + (0.22 * fuzzy) + bonus
           in Inr \<lparr>product = p, score = final_score, tfidf_score = tfidf, fuzzy_score = fuzzy,
                   category_bonus = bonus, matched_tokens = matched\<rparr>)"

text \<open>The loop \<open>for idx, product in enumerate(self.products)\<close>.\<close>

fun search_loop :: "ProductSearchEngine \<Rightarrow> string list \<Rightarrow> vector \<Rightarrow> real \<Rightarrow>
    real option \<Rightarrow> real option \<Rightarrow> string option \<Rightarrow> real option \<Rightarrow>
    (nat \<times> Product) list \<Rightarrow> SearchResult list \<Rightarrow> error + SearchResult list" where
  "search_loop self qtokens qvec qnorm min_price max_price cat min_rating [] results = Inr results"
| "search_loop self qtokens qvec qnorm min_price max_price cat min_rating ((idx, p) # rest) results =
     (if filtered_out min_price max_price cat min_rating p
      then search_loop self qtokens qvec qnorm min_price max_price cat min_rating rest results
      else then_do (score_product self qtokens qvec qnorm idx p) (\<lambda>r.
             if score r \<le> 0
             then search_loop self qtokens qvec qnorm min_price max_price cat min_rating rest results
             else search_loop self qtokens qvec qnorm min_price max_price cat min_rating rest (results @ [r])))"

text \<open>\<open>xs[:limit]\<close>: a negative limit counts from the end.\<close>

definition slice_to :: "'a list \<Rightarrow> int \<Rightarrow> 'a list" where
  "slice_to xs limit = (if 0 \<le> limit then take (nat limit) xs else take (length xs - nat (- limit)) xs)"

text \<open>\<open>round(x, ndigits)\<close>: the nearest multiple of \<open>10 ** -ndigits\<close>, a tie to the even one.\<close>

definition py_round :: "real \<Rightarrow> nat \<Rightarrow> real" where
  "py_round x ndigits =
     (let y = x * 10 ^ ndigits; f = \<lfloor>y\<rfloor>
      in real_of_int (if y - of_int f < 1 / 2 then f
                      else if 1 / 2 < y - of_int f then f + 1
                      else if even f then f else f + 1) / 10 ^ ndigits)"

record TopScore =
  ts_title :: string
  ts_final :: real
  ts_tfidf :: real
  ts_fuzzy :: real
  ts_bonus :: real

record Diagnostics =
  query_tokens :: "string list"
  index_build_ms :: real
  query_time_ms :: real
  total_products :: nat
  top_scores :: "TopScore list option"

text \<open>\<open>search\<close>. \<open>start\<close> and \<open>stop\<close> are the two readings of \<open>time.perf_counter\<close>.
  \<open>results.sort(key=lambda item: item.score, reverse=True)\<close> is stable: results of equal
  score keep their order, which \<^const>\<open>sort_key\<close> on the negated score does as well.\<close>

definition search :: "ProductSearchEngine \<Rightarrow> real \<Rightarrow> real \<Rightarrow> string \<Rightarrow>
    real option \<Rightarrow> real option \<Rightarrow> string option \<Rightarrow> real option \<Rightarrow> bool \<Rightarrow> int \<Rightarrow>
    error + SearchResult list \<times> Diagnostics" where
  "search self start stop query min_price max_price cat min_rating debug limit =
     (let qtokens = tokenize query;
          diagnostics = \<lparr>query_tokens = qtokens,
                         index_build_ms = py_round (last_index_build_ms self) 2,
                         query_time_ms = 0,
                         total_products = length (products self),
                         top_scores = None\<rparr>
      in if qtokens = [] then Inr ([], diagnostics)
         else case query_vector self qtokens of (qvec, qnorm) \<Rightarrow>
           then_do (search_loop self qtokens qvec qnorm min_price max_price cat min_rating
                      (enumerate 0 (products self)) []) (\<lambda>results.
             let results = sort_key (\<lambda>item. - score item) results;
                 trimmed = slice_to results limit;
                 diagnostics = diagnostics\<lparr>query_time_ms := py_round ((stop - start) * 1000) 2\<rparr>;
                 diagnostics =
                   (if debug
                    then diagnostics\<lparr>top_scores :=
                           Some (map (\<lambda>r. \<lparr>ts_title = title (product r),
                                            ts_final = py_round (score r) 4,
                                            ts_tfidf = py_round (tfidf_score r) 4,
                                            ts_fuzzy = py_round (fuzzy_score r) 4,
                                            ts_bonus = py_round (category_bonus r) 4\<rparr>)
                                     (take 5 trimmed))\<rparr>
                    else diagnostics)
             in Inr (trimmed, diagnostics)))"

section \<open>A small catalogue\<close>

text \<open>A file of two data rows, the first with a blank title, and the engine that
  loading it builds. The concrete statements below are evaluated on them.\<close>

definition blank_row :: row where
  "blank_row = map_of [(''title'', Some ''  ''), (''category'', Some ''misc''), (''price'', Some ''1'')]"

definition shoes_row :: row where
  "shoes_row = map_of [(''title'', Some ''le''), (''category'', Some ''shoes''), (''price'', Some ''10'')]"

definition demo_file :: csv_file where
  "demo_file = \<lparr>fieldnames = Some [''title'', ''category'', ''price''], rows = [blank_row, shoes_row]\<rparr>"

definition on_disk :: "csv_file \<Rightarrow> (string \<rightharpoonup> csv_file)" where
  "on_disk f = [''catalog.csv'' \<mapsto> f]"

definition demo_fs :: "string \<rightharpoonup> csv_file" where
  "demo_fs = on_disk demo_file"

definition blank_engine :: "string \<Rightarrow> ProductSearchEngine" where
  "blank_engine path =
     \<lparr>csv_path = path, column_override = Map.empty, products = [], doc_vectors = [],
      doc_norms = [], idf = Map.empty, categories = [], last_index_build_ms = 0\<rparr>"

definition demo_product :: Product where
  "demo_product =
     \<lparr>prod_id = 1, title = ''le'', description = [], category = ''shoes'', brand = [],
      price = Some 10, rating = None, image_url = [], url = [], searchable_text = ''shoes''\<rparr>"

definition demo_engine :: ProductSearchEngine where
  "demo_engine =
     \<lparr>csv_path = ''catalog.csv'', column_override = Map.empty, products = [demo_product],
      doc_vectors = [[(''shoes'', 1)]], doc_norms = [1], idf = [''shoes'' \<mapsto> 1],
      categories = [''shoes''], last_index_build_ms = 0\<rparr>"

definition demo_columns :: "string \<Rightarrow> string option" where
  "demo_columns = detect_columns [''title'', ''category'', ''price''] Map.empty"

lemma demo_columns_title: "demo_columns ''title'' = Some ''title''"
  unfolding demo_columns_def by code_simp

lemma demo_columns_description: "demo_columns ''description'' = None"
  unfolding demo_columns_def by code_simp

lemma demo_columns_category: "demo_columns ''category'' = Some ''category''"
  unfolding demo_columns_def by code_simp

lemma demo_columns_brand: "demo_columns ''brand'' = None"
  unfolding demo_columns_def by code_simp

lemma demo_columns_image_url: "demo_columns ''image_url'' = None"
  unfolding demo_columns_def by code_simp

lemma demo_columns_url: "demo_columns ''url'' = None"
  unfolding demo_columns_def by code_simp

lemma demo_columns_price: "demo_columns ''price'' = Some ''price''"
  unfolding demo_columns_def by code_simp

lemma demo_columns_rating: "demo_columns ''rating'' = None"
  unfolding demo_columns_def by code_simp

lemmas demo_columns_simps = demo_columns_title demo_columns_description demo_columns_category demo_columns_brand demo_columns_image_url demo_columns_url demo_columns_price demo_columns_rating


lemma strip_demo: "strip ''  '' = []" "strip ''le'' = ''le''" "strip ''shoes'' = ''shoes''" "strip [] = []"
  by code_simp+

lemma tokenize_demo: "tokenize ''le shoes'' = [''shoes'']" "tokenize ''shoes'' = [''shoes'']" "tokenize ''le'' = []"
  by code_simp+

lemma parse_demo: "parse_numeric (Some ''10'') = Some 10" "parse_numeric None = None"
  by code_simp+

lemma load_row_demo0:
  "load_row demo_columns 0 blank_row = Inr None"
  by (simp add: blank_row_def load_row_def then_do_def get_text_def truthy_def demo_columns_simps strip_demo)

lemma load_row_demo1:
  "load_row demo_columns (Suc 0) shoes_row = Inr (Some (demo_product, [''shoes'']))"
  by (simp add: shoes_row_def load_row_def then_do_def get_text_def get_number_def truthy_def demo_columns_simps
      strip_demo tokenize_demo parse_demo demo_product_def)

lemma read_catalog_demo:
  "read_catalog demo_fs (blank_engine ''catalog.csv'') = Inr ([demo_product], {''shoes''}, [[''shoes'']])"
  by (simp add: read_catalog_def demo_fs_def on_disk_def demo_file_def blank_engine_def truthy_def then_do_def
      demo_columns_def[symmetric] demo_columns_simps load_row_demo0 load_row_demo1 demo_product_def)

lemma build_idf_demo: "build_idf [[''shoes'']] = [''shoes'' \<mapsto> 1]"
  by (rule ext) (simp add: build_idf_def count_doc_freq_def bump_def)

lemma load_data_demo:
  "load_data demo_fs 0 0 (blank_engine ''catalog.csv'') = (None, demo_engine)"
  unfolding load_data_def read_catalog_demo
  by (simp add: build_tfidf_def build_idf_demo doc_vector_def
      Counter_def norm_of_def demo_engine_def blank_engine_def)

section \<open>The comma policy of the numeric parser\<close>

lemma split_char_notin: "c \<notin> set s \<Longrightarrow> split_char c s = [s]"
  by (induction s) auto

lemma split_char_not_Nil: "split_char c s \<noteq> []"
  by (induction s) (auto split: list.splits)

lemma count_list_0_notin: "count_list s c = 0 \<Longrightarrow> c \<notin> set s"
  by (induction s) (auto split: if_splits)

lemma split_char_second:
  "count_list s c = 1 \<Longrightarrow> split_char c s ! 1 = tl (dropWhile (\<lambda>x. x \<noteq> c) s)"
proof (induction s)
  case Nil
  then show ?case by simp
next
  case (Cons x xs)
  show ?case
  proof (cases "x = c")
    case True
    with Cons.prems have "count_list xs c = 0" by simp
    then have "split_char c xs = [xs]" by (simp add: split_char_notin count_list_0_notin)
    with True show ?thesis by simp
  next
    case False
    with Cons.prems have c: "count_list xs c = 1" by simp
    obtain p ps where ps: "split_char c xs = p # ps"
      using split_char_not_Nil[of c xs] by (cases "split_char c xs") auto
    from Cons.IH[OF c] ps False show ?thesis by simp
  qed
qed

lemma replace_char_Nil_iff: "replace_char c r [] = []"
  by (simp add: replace_char_def)

text \<open>
  Claim C9, as the code has it. For an input that, once stripped and freed of spaces and
  percent signs, holds a comma and no period, \<open>parse_numeric\<close> reads the comma as
  the decimal separator exactly when there is one comma and at most two characters
  (digits or not) after it, and deletes every comma otherwise; \<open>"2,50"\<close> parses to 2.5
  and \<open>"2,500"\<close> to 2500.
\<close>

theorem parse_numeric_comma_policy:
  assumes "CHR '','' \<in> set (spaceless s)" and "CHR ''.'' \<notin> set (spaceless s)"
  shows "parse_numeric (Some s) =
           numeric_value
             (if count_list (spaceless s) (CHR '','') = 1 \<and> length (after_comma (spaceless s)) \<le> 2
              then replace_char (CHR '','') ''.'' (spaceless s)
              else replace_char (CHR '','') [] (spaceless s))
         \<and> parse_numeric (Some ''2,50'') = Some 2.5
         \<and> parse_numeric (Some ''2,500'') = Some 2500"
proof -
  have ne: "strip s \<noteq> []"
    using assms(1) by (auto simp: spaceless_def replace_char_def)
  have snd: "count_list (spaceless s) (CHR '','') = 1 \<Longrightarrow>
      split_char (CHR '','') (spaceless s) ! 1 = after_comma (spaceless s)"
    unfolding after_comma_def by (rule split_char_second)
  have pol: "comma_policy (spaceless s) =
      (if count_list (spaceless s) (CHR '','') = 1 \<and> length (after_comma (spaceless s)) \<le> 2
       then replace_char (CHR '','') ''.'' (spaceless s)
       else replace_char (CHR '','') [] (spaceless s))"
    unfolding comma_policy_def using assms snd by auto
  have "parse_numeric (Some s) = numeric_value (comma_policy (spaceless s))"
    using ne by (simp add: parse_numeric_def numeric_value_def spaceless_def Let_def)
  moreover have "parse_numeric (Some ''2,50'') = Some 2.5" by code_simp
  moreover have "parse_numeric (Some ''2,500'') = Some 2500" by code_simp
  ultimately show ?thesis using pol by simp
qed

text \<open>The theorem at the input \<open>" 1 234,5 % "\<close>: one comma, one character after it, so
  the value is 1234.5.\<close>

theorem parse_numeric_comma_policy_witness:
  "CHR '','' \<in> set (spaceless '' 1 234,5 % '') \<and> CHR ''.'' \<notin> set (spaceless '' 1 234,5 % '')
   \<and> parse_numeric (Some '' 1 234,5 % '') = numeric_value ''1234.5''
   \<and> numeric_value ''1234.5'' = Some (2469 / 2)"
proof -
  have a: "CHR '','' \<in> set (spaceless '' 1 234,5 % '')" by code_simp
  have b: "CHR ''.'' \<notin> set (spaceless '' 1 234,5 % '')" by code_simp
  have c: "(if count_list (spaceless '' 1 234,5 % '') (CHR '','') = 1
               \<and> length (after_comma (spaceless '' 1 234,5 % '')) \<le> 2
            then replace_char (CHR '','') ''.'' (spaceless '' 1 234,5 % '')
            else replace_char (CHR '','') [] (spaceless '' 1 234,5 % '')) = ''1234.5''"
    by code_simp
  have d: "numeric_value ''1234.5'' = Some (2469 / 2)" by code_simp
  from parse_numeric_comma_policy[OF a b] have
    "parse_numeric (Some '' 1 234,5 % '') = numeric_value ''1234.5''"
    unfolding c by simp
  with a b d show ?thesis by simp
qed

text \<open>
  Claim C9 as stated counts digits, the code counts characters. \<open>"2,50$"\<close> has one
  comma and two digits after it, and the decimal reading would give 2.5; the code sees
  three characters, deletes the comma and returns 250. \<open>"2,5a"\<close> has a letter after
  the comma, and the code still reads the comma as the decimal separator.
\<close>

theorem parse_numeric_digits_counterexample:
  "count_list (spaceless ''2,50$'') (CHR '','') = 1
   \<and> length (filter isdigit (after_comma (spaceless ''2,50$''))) = 2
   \<and> numeric_value (replace_char (CHR '','') ''.'' (spaceless ''2,50$'')) = Some (5 / 2)
   \<and> parse_numeric (Some ''2,50$'') = Some 250
   \<and> count_list (spaceless ''2,5a'') (CHR '','') = 1
   \<and> \<not> list_all isdigit (after_comma (spaceless ''2,5a''))
   \<and> numeric_value (replace_char (CHR '','') [] (spaceless ''2,5a'')) = Some 25
   \<and> parse_numeric (Some ''2,5a'') = Some (5 / 2)"
  by code_simp

section \<open>Product ids\<close>

text \<open>A row is kept when its stripped title is not empty.\<close>

definition kept_row :: "(string \<Rightarrow> string option) \<Rightarrow> row \<Rightarrow> bool" where
  "kept_row columns r = (get_text r (columns ''title'') \<noteq> Inr [])"

lemma load_row_skipped:
  "load_row columns idx r = Inr None \<Longrightarrow> \<not> kept_row columns r"
  unfolding load_row_def then_do_def kept_row_def
  by (auto split: sum.splits if_splits simp: Let_def)

lemma load_row_kept:
  "load_row columns idx r = Inr (Some (p, tokens)) \<Longrightarrow> kept_row columns r \<and> prod_id p = idx"
  unfolding load_row_def then_do_def kept_row_def
  by (auto split: sum.splits if_splits simp: Let_def)

lemma load_rows_ids:
  "load_rows columns idx rs (prods, cs, docs) = Inr (prods', cs', docs') \<Longrightarrow>
   map prod_id prods' =
     map prod_id prods @ map fst (filter (\<lambda>(i, r). kept_row columns r) (enumerate idx rs))"
proof (induction rs arbitrary: idx prods cs docs)
  case Nil
  then show ?case by simp
next
  case (Cons r rs)
  show ?case
  proof (cases "load_row columns idx r")
    case (Inl e)
    with Cons.prems show ?thesis by (simp add: then_do_def)
  next
    case (Inr res)
    show ?thesis
    proof (cases res)
      case None
      with Inr Cons.prems have
        "load_rows columns (idx + 1) rs (prods, cs, docs) = Inr (prods', cs', docs')"
        by (simp add: then_do_def)
      from Cons.IH[OF this] load_row_skipped[of columns idx r] Inr None
      show ?thesis by simp
    next
      case (Some pt)
      obtain p tokens where pt: "pt = (p, tokens)" by (cases pt)
      from Inr Some pt Cons.prems have
        "load_rows columns (idx + 1) rs
           (prods @ [p], (if category p \<noteq> [] then insert (category p) cs else cs), docs @ [tokens])
         = Inr (prods', cs', docs')"
        by (simp add: then_do_def)
      from Cons.IH[OF this] load_row_kept[of columns idx r p tokens] Inr Some pt
      show ?thesis by simp
    qed
  qed
qed

lemma load_data_products:
  assumes "load_data fs start stop self = (None, self')"
  shows "\<exists>prods cs docs. read_catalog fs self = Inr (prods, cs, docs) \<and> products self' = prods"
  using assms unfolding load_data_def build_tfidf_def
  by (auto split: sum.splits prod.splits simp: Let_def)

lemma read_catalog_rows:
  assumes "read_catalog fs self = Inr (prods, cs, docs)" "fs (csv_path self) = Some f"
    "fieldnames f = Some names"
  shows "load_rows (detect_columns names (column_override self)) 0 (rows f) ([], {}, []) = Inr (prods, cs, docs)"
  using assms unfolding read_catalog_def then_do_def
  by (auto split: sum.splits prod.splits if_splits simp: Let_def)

lemma enumerate_ids_increasing:
  "sorted_wrt (<) (map fst (filter P (enumerate n xs)))"
proof -
  have "sorted_wrt (<) (map fst (enumerate n xs))" by simp
  then have "sorted_wrt (\<lambda>x y. fst x < fst y) (enumerate n xs)"
    by (simp only: sorted_wrt_map)
  then have "sorted_wrt (\<lambda>x y. fst x < fst y) (filter P (enumerate n xs))"
    by (rule sorted_wrt_filter)
  then show ?thesis by (simp only: sorted_wrt_map)
qed

text \<open>
  Claim C1, as the code has it. The id of a product is the index that \<open>enumerate\<close> gives
  its row, and \<open>enumerate\<close> counts every data row of the file, the skipped ones too. After
  a successful load the ids of the kept products are the 0-based positions of the kept
  rows among all the data rows, in source order, hence strictly increasing.
\<close>

theorem load_data_ids_are_row_indexes:
  assumes "load_data fs start stop self = (None, self')"
    and "fs (csv_path self) = Some f" and "fieldnames f = Some names"
  shows "map prod_id (products self') =
           map fst (filter (\<lambda>(idx, r). kept_row (detect_columns names (column_override self)) r)
                      (enumerate 0 (rows f)))
       \<and> sorted_wrt (<) (map prod_id (products self'))"
proof -
  let ?cols = "detect_columns names (column_override self)"
  from load_data_products[OF assms(1)] obtain prods cs docs where
    rc: "read_catalog fs self = Inr (prods, cs, docs)" and p: "products self' = prods" by blast
  from load_rows_ids[OF read_catalog_rows[OF rc assms(2,3)]]
  have ids: "map prod_id prods = map fst (filter (\<lambda>(i, r). kept_row ?cols r) (enumerate 0 (rows f)))"
    by simp
  show ?thesis unfolding p ids using enumerate_ids_increasing by blast
qed

lemma kept_demo: "\<not> kept_row demo_columns blank_row" "kept_row demo_columns shoes_row"
  by (simp_all add: kept_row_def get_text_def truthy_def demo_columns_title blank_row_def shoes_row_def strip_demo)

text \<open>The theorem on the small catalogue: the first data row has a blank title, the second
  is kept and carries the id 1.\<close>

theorem load_data_ids_are_row_indexes_witness:
  "load_data demo_fs 0 0 (blank_engine ''catalog.csv'') = (None, demo_engine)
   \<and> demo_fs (csv_path (blank_engine ''catalog.csv'')) = Some demo_file
   \<and> fieldnames demo_file = Some [''title'', ''category'', ''price'']
   \<and> map prod_id (products demo_engine) = [1]
   \<and> sorted_wrt (<) (map prod_id (products demo_engine))"
  using load_data_ids_are_row_indexes[OF load_data_demo, of demo_file "[''title'', ''category'', ''price'']"]
    load_data_demo
  by (simp add: demo_fs_def on_disk_def demo_file_def blank_engine_def demo_columns_def[symmetric] kept_demo)

text \<open>
  Claim C1 as stated asks for the ids 0, 1, ... of a dense sequence over the kept rows. On
  the small catalogue the load succeeds with one kept product, the first one, and its id
  is 1 and not 0.
\<close>

theorem load_data_ids_counterexample:
  "fst (load_data demo_fs 0 0 (blank_engine ''catalog.csv'')) = None
   \<and> map prod_id (products (snd (load_data demo_fs 0 0 (blank_engine ''catalog.csv'')))) = [1]
   \<and> map prod_id (products (snd (load_data demo_fs 0 0 (blank_engine ''catalog.csv'')))) \<noteq> [0]"
  unfolding load_data_demo by (simp add: demo_engine_def demo_product_def)

section \<open>A failed load\<close>








section \<open>Queries without tokens\<close>

text \<open>
  Claim C6. When the query has no token, \<open>search\<close> returns, without raising, the empty
  result list and diagnostics that hold the empty token list, the number of products
  and the latency of the last index build (rounded to two decimals, as every latency the
  diagnostics report).
\<close>

theorem search_empty_tokens:
  assumes "tokenize query = []"
  shows "search self start stop query min_price max_price cat min_rating debug limit =
         Inr ([], \<lparr>query_tokens = [], index_build_ms = py_round (last_index_build_ms self) 2,
                    query_time_ms = 0, total_products = length (products self),
                    top_scores = None\<rparr>)"
  using assms by (simp add: search_def)

lemma tokenize_stopwords: "tokenize ''le la de'' = []"
  by code_simp

text \<open>The theorem at the query \<open>"le la de"\<close>, three stopwords, on the engine of the small
  catalogue.\<close>

theorem search_empty_tokens_witness:
  "tokenize ''le la de'' = [] \<and>
   search demo_engine 0 1 ''le la de'' None None None None False 30 =
         Inr ([], \<lparr>query_tokens = [], index_build_ms = py_round 0 2,
                    query_time_ms = 0, total_products = 1, top_scores = None\<rparr>)"
  using search_empty_tokens[of "''le la de''" demo_engine 0 1 None None None None False 30]
    tokenize_stopwords
  by (simp add: demo_engine_def)

section \<open>The empty category filter\<close>

lemma filtered_out_empty_category:
  "filtered_out min_price max_price (Some []) min_rating p =
   filtered_out min_price max_price None min_rating p"
  by (simp add: filtered_out_def)

lemma search_loop_empty_category:
  "search_loop self qtokens qvec qnorm min_price max_price (Some []) min_rating items results =
   search_loop self qtokens qvec qnorm min_price max_price None min_rating items results"
proof (induction items arbitrary: results)
  case Nil
  show ?case by simp
next
  case (Cons x items)
  obtain idx p where x: "x = (idx, p)" by (cases x)
  show ?case
    unfolding x search_loop.simps filtered_out_empty_category Cons.IH ..
qed

text \<open>
  Claim C10. The category test of \<open>search\<close> is \<open>if category and ...\<close>, and the empty
  string is false: with the category filter \<open>""\<close> the test rejects no product, every
  product is filtered as without a category filter, and the two calls return the same
  results in the same order, with the same diagnostics.
\<close>

theorem search_empty_category_is_no_filter:
  "\<not> filtered_out None None (Some '''') None p
   \<and> filtered_out min_price max_price (Some '''') min_rating p =
     filtered_out min_price max_price None min_rating p
   \<and> search self start stop query min_price max_price (Some '''') min_rating debug limit =
     search self start stop query min_price max_price None min_rating debug limit"
  unfolding search_def search_loop_empty_category filtered_out_empty_category
  by (simp add: filtered_out_def)

section \<open>The scores of the results\<close>

text \<open>What holds of every result scored by the loop holds of every result the loop
  returns, and sorting and slicing add no result.\<close>

lemma search_loop_invariant:
  assumes "search_loop self qtokens qvec qnorm min_price max_price cat min_rating items results = Inr out"
    and "\<forall>r \<in> set results. P r"
    and "\<And>idx p r. (idx, p) \<in> set items \<Longrightarrow> \<not> filtered_out min_price max_price cat min_rating p \<Longrightarrow>
           score_product self qtokens qvec qnorm idx p = Inr r \<Longrightarrow> 0 < score r \<Longrightarrow> P r"
  shows "\<forall>r \<in> set out. P r"
  using assms
proof (induction items arbitrary: results)
  case Nil
  then show ?case by simp
next
  case (Cons x items)
  obtain idx p where x: "x = (idx, p)" by (cases x)
  have step: "P r" if "(idx', p') \<in> set items" "\<not> filtered_out min_price max_price cat min_rating p'"
      "score_product self qtokens qvec qnorm idx' p' = Inr r" "0 < score r" for idx' p' r
    using Cons.prems(3)[of idx' p' r] that by simp
  show ?case
  proof (cases "filtered_out min_price max_price cat min_rating p")
    case True
    with Cons.prems(1) x have
      "search_loop self qtokens qvec qnorm min_price max_price cat min_rating items results = Inr out"
      by simp
    from Cons.IH[OF this Cons.prems(2) step] show ?thesis by simp
  next
    case False
    show ?thesis
    proof (cases "score_product self qtokens qvec qnorm idx p")
      case (Inl e)
      with Cons.prems(1) x False show ?thesis by (simp add: then_do_def)
    next
      case (Inr r)
      show ?thesis
      proof (cases "score r \<le> 0")
        case True
        with Cons.prems(1) x False Inr have
          "search_loop self qtokens qvec qnorm min_price max_price cat min_rating items results = Inr out"
          by (simp add: then_do_def)
        from Cons.IH[OF this Cons.prems(2) step] show ?thesis by simp
      next
        case pos: False
        with Cons.prems(1) x False Inr have l:
          "search_loop self qtokens qvec qnorm min_price max_price cat min_rating items (results @ [r]) = Inr out"
          by (simp add: then_do_def)
        have "P r" using Cons.prems(3)[of idx p r] x False Inr pos by simp
        then have "\<forall>r' \<in> set (results @ [r]). P r'" using Cons.prems(2) by simp
        from Cons.IH[OF l this step] show ?thesis by simp
      qed
    qed
  qed
qed

lemma set_slice_to: "set (slice_to xs limit) \<subseteq> set xs"
  unfolding slice_to_def by (auto dest: in_set_takeD)

lemma search_results_from_loop:
  assumes "search self start stop query min_price max_price cat min_rating debug limit = Inr (results, diagnostics)"
    and "r \<in> set results"
  shows "\<exists>out. search_loop self (tokenize query) (fst (query_vector self (tokenize query)))
                  (snd (query_vector self (tokenize query))) min_price max_price cat min_rating
                  (enumerate 0 (products self)) [] = Inr out \<and> r \<in> set out"
proof (cases "tokenize query = []")
  case True
  with assms show ?thesis by (simp add: search_def)
next
  case False
  obtain qvec qnorm where qv: "query_vector self (tokenize query) = (qvec, qnorm)"
    by (cases "query_vector self (tokenize query)")
  show ?thesis
  proof (cases "search_loop self (tokenize query) qvec qnorm min_price max_price cat min_rating
                  (enumerate 0 (products self)) []")
    case (Inl e)
    with assms(1) False qv show ?thesis by (simp add: search_def then_do_def)
  next
    case (Inr out)
    with assms(1) False qv have "results = slice_to (sort_key (\<lambda>item. - score item) out) limit"
      by (simp add: search_def then_do_def Let_def)
    then have "r \<in> set out" using assms(2) set_slice_to by fastforce
    then show ?thesis using Inr qv by simp
  qed
qed

text \<open>
  Claim C3. Every result that \<open>search\<close> returns is the scoring of a product of the index
  that passed the filters: its TF-IDF score is the cosine similarity of the query vector
  and the document vector, its fuzzy score that of the query tokens and the title, its
  bonus that of the category and the brand, its final score is
  \<open>0.72 * tfidf_score + 0.22 * fuzzy_score + category_bonus\<close>, and that score is
  strictly positive.
\<close>

theorem search_final_score:
  assumes "search self start stop query min_price max_price cat min_rating debug limit = Inr (results, diagnostics)"
    and "r \<in> set results"
  shows "score r = 0.72 * tfidf_score r + 0.22 * fuzzy_score r + category_bonus r
       \<and> 0 < score r
       \<and> (\<exists>idx < length (products self).
            product r = products self ! idx
          \<and> \<not> filtered_out min_price max_price cat min_rating (product r)
          \<and> tfidf_score r = cosine_similarity (fst (query_vector self (tokenize query)))
                               (snd (query_vector self (tokenize query)))
                               (doc_vectors self ! idx) (doc_norms self ! idx)
          \<and> fuzzy_score r = compute_fuzzy_score (tokenize query) (title (product r))
          \<and> category_bonus r = bonus_of (tokenize query) (product r))"
proof -
  let ?qt = "tokenize query"
  let ?qv = "fst (query_vector self ?qt)"
  let ?qn = "snd (query_vector self ?qt)"
  let ?P = "\<lambda>r. score r = 0.72 * tfidf_score r + 0.22 * fuzzy_score r + category_bonus r
       \<and> 0 < score r
       \<and> (\<exists>idx < length (products self).
            product r = products self ! idx
          \<and> \<not> filtered_out min_price max_price cat min_rating (product r)
          \<and> tfidf_score r = cosine_similarity ?qv ?qn (doc_vectors self ! idx) (doc_norms self ! idx)
          \<and> fuzzy_score r = compute_fuzzy_score ?qt (title (product r))
          \<and> category_bonus r = bonus_of ?qt (product r))"
  from search_results_from_loop[OF assms] obtain out where
    loop: "search_loop self ?qt ?qv ?qn min_price max_price cat min_rating (enumerate 0 (products self)) [] = Inr out"
    and r: "r \<in> set out" by blast
  have "\<forall>r \<in> set out. ?P r"
  proof (rule search_loop_invariant[OF loop])
    show "\<forall>r \<in> set []. ?P r" by simp
  next
    fix idx p r
    assume m: "(idx, p) \<in> set (enumerate 0 (products self))"
      and nf: "\<not> filtered_out min_price max_price cat min_rating p"
      and sp: "score_product self ?qt ?qv ?qn idx p = Inr r" and pos: "0 < score r"
    from m have i: "idx < length (products self)" "p = products self ! idx"
      by (auto simp: in_set_enumerate_eq)
    from sp have f: "product r = p"
      "score r = 0.72 * tfidf_score r + 0.22 * fuzzy_score r + category_bonus r"
      "tfidf_score r = cosine_similarity ?qv ?qn (doc_vectors self ! idx) (doc_norms self ! idx)"
      "fuzzy_score r = compute_fuzzy_score ?qt (title p)"
      "category_bonus r = bonus_of ?qt p"
      unfolding score_product_def by (auto split: if_splits simp: Let_def)
    show "?P r" using i nf pos f by auto
  qed
  with r show ?thesis by blast
qed

text \<open>The query \<open>"shoes"\<close> on the engine of the small catalogue: the only product has
  the cosine similarity 1, no title token, hence the fuzzy score 0, and the category
  bonus 0.12.\<close>

definition demo_result :: SearchResult where
  "demo_result =
     \<lparr>product = demo_product, score = 21 / 25, tfidf_score = 1, fuzzy_score = 0,
      category_bonus = 3 / 25, matched_tokens = [''shoes'']\<rparr>"

definition demo_diagnostics :: Diagnostics where
  "demo_diagnostics =
     \<lparr>query_tokens = [''shoes''], index_build_ms = 0, query_time_ms = 0, total_products = 1,
      top_scores = None\<rparr>"

lemma py_round_0: "py_round 0 n = 0"
  by (simp add: py_round_def)

lemma split_ws_demo: "split_ws ''shoes'' = [''shoes'']"
  by code_simp

lemma query_vector_demo: "query_vector demo_engine [''shoes''] = ([(''shoes'', 1)], 1)"
  by (simp add: query_vector_def Counter_def norm_of_def demo_engine_def)

lemma score_product_demo:
  "score_product demo_engine [''shoes''] [(''shoes'', 1)] 1 0 demo_product = Inr demo_result"
  by (simp add: score_product_def demo_engine_def cosine_similarity_def compute_fuzzy_score_def
      bonus_of_def sorted_set_def demo_product_def demo_result_def tokenize_demo split_ws_demo)

lemma search_demo:
  "search demo_engine 0 0 ''shoes'' min_price max_price cat min_rating False 30 =
     Inr (if filtered_out min_price max_price cat min_rating demo_product then [] else [demo_result],
          demo_diagnostics)"
proof -
  have p: "products demo_engine = [demo_product]" "last_index_build_ms demo_engine = 0"
    by (simp_all add: demo_engine_def)
  have pos: "\<not> score demo_result \<le> 0" by (simp add: demo_result_def)
  show ?thesis
    by (simp add: search_def Let_def tokenize_demo query_vector_demo p score_product_demo
        then_do_def pos slice_to_def py_round_0 demo_diagnostics_def)
qed

text \<open>The theorem at that query, without filters: the score 0.84 is
  \<open>0.72 * 1 + 0.22 * 0 + 0.12\<close>.\<close>

theorem search_final_score_witness:
  "search demo_engine 0 0 ''shoes'' None None None None False 30 = Inr ([demo_result], demo_diagnostics)
   \<and> demo_result \<in> set [demo_result]
   \<and> score demo_result = 0.72 * tfidf_score demo_result + 0.22 * fuzzy_score demo_result
        + category_bonus demo_result
   \<and> 0 < score demo_result"
proof -
  have s: "search demo_engine 0 0 ''shoes'' None None None None False 30 = Inr ([demo_result], demo_diagnostics)"
    by (simp add: search_demo filtered_out_def)
  from search_final_score[OF s, of demo_result] s show ?thesis by simp
qed

section \<open>The filters\<close>














section \<open>The IDF table\<close>

text \<open>The document frequency of a token: the number of documents that hold it.\<close>

definition doc_frequency :: "string list list \<Rightarrow> string \<Rightarrow> nat" where
  "doc_frequency tokenized_docs t = length (filter (\<lambda>tokens. t \<in> set tokens) tokenized_docs)"

lemma foldl_bump_distinct:
  "distinct xs \<Longrightarrow>
   foldl bump m xs t =
     (if t \<in> set xs then Some ((case m t of None \<Rightarrow> 0 | Some n \<Rightarrow> n) + 1) else m t)"
proof (induction xs arbitrary: m)
  case Nil
  show ?case by simp
next
  case (Cons x xs)
  then have d: "distinct xs" and nx: "x \<notin> set xs" by simp_all
  show ?case
    using Cons.IH[OF d, of "bump m x"] nx by (auto simp: bump_def)
qed

lemma count_doc_freq_fold:
  "foldl (\<lambda>doc_freq tokens. foldl bump doc_freq (remdups tokens)) m docs t =
     (if doc_frequency docs t = 0 then m t
      else Some ((case m t of None \<Rightarrow> 0 | Some n \<Rightarrow> n) + doc_frequency docs t))"
proof (induction docs arbitrary: m)
  case Nil
  show ?case by (simp add: doc_frequency_def)
next
  case (Cons d docs)
  have b: "foldl bump m (remdups d) t =
      (if t \<in> set d then Some ((case m t of None \<Rightarrow> 0 | Some n \<Rightarrow> n) + 1) else m t)"
    using foldl_bump_distinct[of "remdups d" m t] by simp
  show ?case
    using Cons.IH[of "foldl bump m (remdups d)"] b
    by (auto simp: doc_frequency_def)
qed

lemma count_doc_freq_eq:
  "count_doc_freq docs t = (if doc_frequency docs t = 0 then None else Some (doc_frequency docs t))"
  unfolding count_doc_freq_def count_doc_freq_fold by simp

lemma doc_frequency_pos: "(0 < doc_frequency docs t) = (t \<in> (\<Union>tokens \<in> set docs. set tokens))"
  unfolding doc_frequency_def by (auto simp: filter_empty_conv)

lemma doc_frequency_le: "doc_frequency docs t \<le> length docs"
  unfolding doc_frequency_def by simp

lemma idf_value_pos: "0 < ln ((1 + real (length docs)) / (1 + real (doc_frequency docs t))) + 1"
proof -
  have "1 \<le> (1 + real (length docs)) / (1 + real (doc_frequency docs t))"
    using doc_frequency_le[of docs t] by (simp add: field_simps)
  then have "0 \<le> ln ((1 + real (length docs)) / (1 + real (doc_frequency docs t)))"
    by simp
  then show ?thesis by linarith
qed

text \<open>
  Claim C5. The IDF table that \<open>_build_tfidf\<close> stores has an entry for exactly the tokens
  that occur in a document; the entry of a token \<open>t\<close> is
  \<open>ln ((1 + N) / (1 + df t)) + 1\<close>, for \<open>N\<close> documents of which \<open>df t\<close> hold \<open>t\<close>; and
  that value is strictly positive.
\<close>

theorem build_idf_table:
  "idf (build_tfidf docs self) = build_idf docs
   \<and> dom (build_idf docs) = (\<Union>tokens \<in> set docs. set tokens)
   \<and> build_idf docs t =
       (if t \<in> (\<Union>tokens \<in> set docs. set tokens)
        then Some (ln ((1 + real (length docs)) / (1 + real (doc_frequency docs t))) + 1)
        else None)
   \<and> 0 < ln ((1 + real (length docs)) / (1 + real (doc_frequency docs t))) + 1"
proof -
  have v: "build_idf docs t =
       (if t \<in> (\<Union>tokens \<in> set docs. set tokens)
        then Some (ln ((1 + real (length docs)) / (1 + real (doc_frequency docs t))) + 1)
        else None)" for t
  proof (cases "doc_frequency docs t = 0")
    case True
    with doc_frequency_pos[of docs t] show ?thesis
      by (simp add: build_idf_def count_doc_freq_eq)
  next
    case False
    then have "0 < doc_frequency docs t" by simp
    with doc_frequency_pos[of docs t] have "t \<in> (\<Union>tokens \<in> set docs. set tokens)" by blast
    with False show ?thesis
      by (simp add: build_idf_def count_doc_freq_eq)
  qed
  have d: "dom (build_idf docs) = (\<Union>tokens \<in> set docs. set tokens)"
    unfolding dom_def using v by (auto split: if_splits)
  show ?thesis
    using v d idf_value_pos by (simp add: build_tfidf_def Let_def)
qed

text \<open>The theorem on two documents: \<open>shoes\<close> occurs twice in the first one and counts
  once, a token of no document has no entry.\<close>

theorem build_idf_table_witness:
  "idf (build_tfidf [[''shoes'', ''shoes''], [''hat'']] demo_engine) ''shoes'' = Some (ln (3 / 2) + 1)
   \<and> doc_frequency [[''shoes'', ''shoes''], [''hat'']] ''shoes'' = 1
   \<and> build_idf [[''shoes'', ''shoes''], [''hat'']] ''sock'' = None"
  using build_idf_table[of "[[''shoes'', ''shoes''], [''hat'']]" demo_engine "''shoes''"]
    build_idf_table[of "[[''shoes'', ''shoes''], [''hat'']]" demo_engine "''sock''"]
  by (simp add: doc_frequency_def)

section \<open>The fuzzy score\<close>

subsection \<open>The ratio lies between 0 and 1\<close>

text \<open>The blocks that \<open>get_matching_blocks\<close> collects in a window fit side by side in
  it, in both strings: their sizes add up to no more than the shorter window.\<close>

definition matched :: "match list \<Rightarrow> nat" where
  "matched blocks = sum_list (map (\<lambda>(i, j, k). k) blocks)"

lemma matched_append: "matched (xs @ ys) = matched xs + matched ys"
  by (simp add: matched_def)

lemma matching_blocks_fit:
  "alo \<le> ahi \<Longrightarrow> blo \<le> bhi \<Longrightarrow>
   matched (matching_blocks a b alo ahi blo bhi) + alo \<le> ahi
   \<and> matched (matching_blocks a b alo ahi blo bhi) + blo \<le> bhi"
proof (induction a b alo ahi blo bhi rule: matching_blocks.induct)
  case (1 a b alo ahi blo bhi)
  obtain i j k where f: "find_longest_match a b alo ahi blo bhi = (i, j, k)"
    by (cases "find_longest_match a b alo ahi blo bhi")
  show ?case
  proof (cases "k = 0")
    case True
    with f "1.prems" show ?thesis
      by (subst (1 2) matching_blocks.simps) (simp add: matched_def)
  next
    case False
    from find_longest_match_bounds[OF f False]
    have b: "alo \<le> i" "i + k \<le> ahi" "blo \<le> j" "j + k \<le> bhi" by simp_all
    let ?l = "if alo < i \<and> blo < j then matching_blocks a b alo i blo j else []"
    let ?r = "if i + k < ahi \<and> j + k < bhi then matching_blocks a b (i + k) ahi (j + k) bhi else []"
    have l: "matched ?l + alo \<le> i \<and> matched ?l + blo \<le> j"
    proof (cases "alo < i \<and> blo < j")
      case True
      from "1.IH"(1)[OF f[symmetric] refl False True] True show ?thesis by simp
    next
      case False
      have "?l = []" by (rule if_not_P[OF False])
      then show ?thesis using b by (simp add: matched_def)
    qed
    have r: "matched ?r + (i + k) \<le> ahi \<and> matched ?r + (j + k) \<le> bhi"
    proof (cases "i + k < ahi \<and> j + k < bhi")
      case True
      from "1.IH"(2)[OF f[symmetric] refl False True] True show ?thesis by simp
    next
      case False
      have "?r = []" by (rule if_not_P[OF False])
      then show ?thesis using b by (simp add: matched_def)
    qed
    have e: "matching_blocks a b alo ahi blo bhi = ?l @ [(i, j, k)] @ ?r"
      using f False by (subst matching_blocks.simps) simp
    have "matched (matching_blocks a b alo ahi blo bhi) = matched ?l + k + matched ?r"
      unfolding e by (simp add: matched_append) (simp add: matched_def)
    with l r show ?thesis by linarith
  qed
qed

lemma ratio_matched:
  "ratio a b =
     (if length a + length b \<noteq> 0
      then 2 * real (matched (matching_blocks a b 0 (length a) 0 (length b))) / real (length a + length b)
      else 1)"
  unfolding ratio_def matched_def Let_def ..

lemma ratio_bounds: "0 \<le> ratio a b \<and> ratio a b \<le> 1"
proof -
  let ?m = "matched (matching_blocks a b 0 (length a) 0 (length b))"
  from matching_blocks_fit[of 0 "length a" 0 "length b" a b]
  have "?m \<le> length a" "?m \<le> length b" by simp_all
  then have "2 * real ?m \<le> real (length a + length b)" by simp
  then show ?thesis
    unfolding ratio_matched by (auto simp: divide_le_eq)
qed

subsection \<open>A string matched with itself\<close>

text \<open>
  When both strings are the same, the first longest block of \<open>find_longest_match\<close> lies on
  the diagonal, also when popular characters have lost their index entries:
  \<open>runlen a j\<close> is the length of the run of indexed characters that ends at position \<open>j\<close>,
  which is the length stored for the cell \<open>(j, j)\<close>; no cell of row \<open>i\<close> stores more than
  \<open>runlen a i\<close>, and none of column \<open>j\<close> more than \<open>runlen a j\<close>, so a cell off the
  diagonal never beats the best block found so far. The two extension loops then stretch
  the block over the whole string.
\<close>

fun runlen :: "string \<Rightarrow> nat \<Rightarrow> nat" where
  "runlen a 0 = (if popular a (a ! 0) then 0 else 1)"
| "runlen a (Suc j) = (if popular a (a ! Suc j) then 0 else Suc (runlen a j))"

definition tab_ok :: "string \<Rightarrow> nat \<Rightarrow> (nat \<rightharpoonup> nat) \<Rightarrow> bool" where
  "tab_ok a i m =
     ((\<forall>j k. m j = Some k \<longrightarrow> k \<le> runlen a i \<and> k \<le> runlen a j) \<and>
      m i = (if runlen a i = 0 then None else Some (runlen a i)))"

definition prev_ok :: "string \<Rightarrow> nat \<Rightarrow> (nat \<rightharpoonup> nat) \<Rightarrow> bool" where
  "prev_ok a i m = (case i of 0 \<Rightarrow> m = Map.empty | Suc i' \<Rightarrow> tab_ok a i' m)"

lemma runlen_popular: "popular a (a ! i) \<Longrightarrow> runlen a i = 0"
  by (cases i) simp_all

lemma runlen_pos: "\<not> popular a (a ! i) \<Longrightarrow> 0 < runlen a i"
  by (cases i) simp_all

lemma kf_le_col:
  assumes "prev_ok a i m" "\<not> popular a (a ! j)"
  shows "j2lenget m j + 1 \<le> runlen a j"
proof (cases j)
  case 0
  with assms(2) show ?thesis by (simp add: j2lenget_def)
next
  case (Suc j')
  show ?thesis
  proof (cases "m j'")
    case None
    with Suc assms(2) show ?thesis by (simp add: j2lenget_def)
  next
    case (Some v)
    then have "i \<noteq> 0" using assms(1) by (auto simp: prev_ok_def split: nat.splits)
    then obtain i' where i: "i = Suc i'" by (cases i) auto
    with assms(1) Some have "v \<le> runlen a j'" by (auto simp: prev_ok_def tab_ok_def)
    with Suc Some assms(2) show ?thesis by (simp add: j2lenget_def)
  qed
qed

lemma kf_le_row:
  assumes "prev_ok a i m" "\<not> popular a (a ! i)"
  shows "j2lenget m j + 1 \<le> runlen a i"
proof (cases i)
  case 0
  with assms show ?thesis by (simp add: j2lenget_def prev_ok_def)
next
  case (Suc i')
  then have t: "tab_ok a i' m" using assms(1) by (simp add: prev_ok_def)
  have "j2lenget m j \<le> runlen a i'"
  proof (cases "j = 0 \<or> m (j - 1) = None")
    case True
    then show ?thesis by (auto simp: j2lenget_def)
  next
    case False
    then obtain v where v: "m (j - 1) = Some v" by auto
    with t have "v \<le> runlen a i'" by (auto simp: tab_ok_def)
    with False v show ?thesis by (simp add: j2lenget_def)
  qed
  with Suc assms(2) show ?thesis by simp
qed

lemma kf_diag:
  assumes "prev_ok a i m" "\<not> popular a (a ! i)"
  shows "j2lenget m i + 1 = runlen a i"
proof (cases i)
  case 0
  with assms show ?thesis by (simp add: j2lenget_def)
next
  case (Suc i')
  then have "m i' = (if runlen a i' = 0 then None else Some (runlen a i'))"
    using assms(1) by (simp add: prev_ok_def tab_ok_def)
  with Suc assms(2) show ?thesis by (simp add: j2lenget_def)
qed

lemma row_loop_table:
  "\<forall>j \<in> set js. j < n \<Longrightarrow>
   fst (row_loop 0 n i m js (new, best)) = (\<lambda>x. if x \<in> set js then Some (j2lenget m x + 1) else new x)"
proof (induction js arbitrary: new best)
  case Nil
  show ?case by simp
next
  case (Cons j js)
  obtain bi bj bs where b: "best = (bi, bj, bs)" by (cases best)
  have j: "j < n" and rest: "\<forall>j \<in> set js. j < n" using Cons.prems by simp_all
  show ?case
    unfolding b using j Cons.IH[OF rest]
    by (auto simp: Let_def fun_eq_iff)
qed

lemma row_loop_diag:
  assumes "sorted js" "\<forall>j \<in> set js. j < n"
    and "\<forall>j \<in> set js. j < i \<longrightarrow> j2lenget m j + 1 \<le> bs"
    and "\<forall>j \<in> set js. i < j \<longrightarrow> j2lenget m j + 1 \<le> r"
    and "j2lenget m i + 1 = r"
    and "i \<in> set js \<or> r \<le> bs"
  shows "\<exists>p s. snd (row_loop 0 n i m js (new, b, b, bs)) = (p, p, s) \<and> bs \<le> s \<and> r \<le> s"
  using assms(1,2,3,4,6)
proof (induction js arbitrary: new b bs)
  case Nil
  then show ?case by simp
next
  case (Cons j js)
  have j: "j < n" and s: "sorted js" and rest: "\<forall>j \<in> set js. j < n"
    using Cons.prems by simp_all
  have lo: "\<forall>x \<in> set js. x < i \<longrightarrow> j2lenget m x + 1 \<le> bs"
    and hi: "\<forall>x \<in> set js. i < x \<longrightarrow> j2lenget m x + 1 \<le> r"
    using Cons.prems by simp_all
  let ?k = "j2lenget m j + 1"
  consider (lt) "j < i" | (eq) "j = i" | (gt) "i < j" by linarith
  then show ?case
  proof cases
    case lt
    then have k: "\<not> bs < ?k" using Cons.prems(3) by auto
    have step: "row_loop 0 n i m (j # js) (new, b, b, bs) = row_loop 0 n i m js (new(j \<mapsto> ?k), b, b, bs)"
      using j k by (simp add: Let_def)
    have "i \<in> set js \<or> r \<le> bs" using Cons.prems(5) lt by auto
    from Cons.IH[OF s rest lo hi this] show ?thesis unfolding step .
  next
    case eq
    have kr: "?k = r" using eq assms(5) by simp
    show ?thesis
    proof (cases "bs < r")
      case True
      have step: "row_loop 0 n i m (j # js) (new, b, b, bs) =
          row_loop 0 n i m js (new(j \<mapsto> r), i + 1 - r, i + 1 - r, r)"
        using j True kr eq by (simp add: Let_def)
      have lo': "\<forall>x \<in> set js. x < i \<longrightarrow> j2lenget m x + 1 \<le> r" using lo True by auto
      have "i \<in> set js \<or> r \<le> r" by simp
      from Cons.IH[OF s rest lo' hi this]
      obtain p s' where "snd (row_loop 0 n i m js (new(j \<mapsto> r), i + 1 - r, i + 1 - r, r)) = (p, p, s')"
        "r \<le> s'" by blast
      then show ?thesis unfolding step using True by auto
    next
      case False
      have step: "row_loop 0 n i m (j # js) (new, b, b, bs) = row_loop 0 n i m js (new(j \<mapsto> r), b, b, bs)"
        using j False kr by (simp add: Let_def)
      have "i \<in> set js \<or> r \<le> bs" using False by simp
      from Cons.IH[OF s rest lo hi this] show ?thesis unfolding step .
    qed
  next
    case gt
    have "i \<notin> set (j # js)" using gt Cons.prems(1) by auto
    then have rb: "r \<le> bs" using Cons.prems(5) by blast
    then have k: "\<not> bs < ?k" using Cons.prems(4) gt by auto
    have step: "row_loop 0 n i m (j # js) (new, b, b, bs) = row_loop 0 n i m js (new(j \<mapsto> ?k), b, b, bs)"
      using j k by (simp add: Let_def)
    have "i \<in> set js \<or> r \<le> bs" using rb by simp
    from Cons.IH[OF s rest lo hi this] show ?thesis unfolding step .
  qed
qed


lemma row_diag:
  assumes "prev_ok a i m" "\<forall>j < i. runlen a j \<le> bs" "i < length a"
  shows "\<exists>m' p s. row_loop 0 (length a) i m (b2j a (a ! i)) (Map.empty, b, b, bs) = (m', p, p, s)
           \<and> tab_ok a i m' \<and> (\<forall>j < Suc i. runlen a j \<le> s)"
proof (cases "popular a (a ! i)")
  case True
  then have "b2j a (a ! i) = []" by (simp add: b2j_def)
  moreover have "tab_ok a i Map.empty" using runlen_popular[OF True] by (simp add: tab_ok_def)
  moreover have "\<forall>j < Suc i. runlen a j \<le> bs"
    using assms(2) runlen_popular[OF True] by (auto simp: less_Suc_eq)
  ultimately show ?thesis by simp
next
  case False
  let ?js = "b2j a (a ! i)"
  let ?r = "runlen a i"
  have js: "?js = filter (\<lambda>j. a ! j = a ! i) [0..<length a]" using False by (simp add: b2j_def)
  have srt: "sorted ?js" unfolding js by (rule sorted_wrt_filter) simp
  have mem: "j \<in> set ?js \<longleftrightarrow> j < length a \<and> a ! j = a ! i" for j unfolding js by auto
  have lt: "\<forall>j \<in> set ?js. j < length a" using mem by simp
  have np: "\<not> popular a (a ! j)" if "j \<in> set ?js" for j using that mem False by simp
  have lo: "\<forall>j \<in> set ?js. j < i \<longrightarrow> j2lenget m j + 1 \<le> bs"
    using kf_le_col[OF assms(1) np] assms(2) by (meson le_trans)
  have hi: "\<forall>j \<in> set ?js. i < j \<longrightarrow> j2lenget m j + 1 \<le> ?r"
    using kf_le_row[OF assms(1) False] by simp
  have d: "j2lenget m i + 1 = ?r" by (rule kf_diag[OF assms(1) False])
  have ii: "i \<in> set ?js \<or> ?r \<le> bs" using mem assms(3) by simp
  from row_loop_diag[OF srt lt lo hi d ii, of Map.empty b]
  obtain p s where ps: "snd (row_loop 0 (length a) i m ?js (Map.empty, b, b, bs)) = (p, p, s)"
    and s: "bs \<le> s" "?r \<le> s" by blast
  let ?m' = "fst (row_loop 0 (length a) i m ?js (Map.empty, b, b, bs))"
  have tab: "?m' = (\<lambda>x. if x \<in> set ?js then Some (j2lenget m x + 1) else None)"
    using row_loop_table[OF lt, of i m Map.empty "(b, b, bs)"] by simp
  have t: "tab_ok a i ?m'"
    unfolding tab tab_ok_def
    using kf_le_col[OF assms(1) np] kf_le_row[OF assms(1) False] d runlen_pos[OF False] mem assms(3)
    by auto
  have all: "\<forall>j < Suc i. runlen a j \<le> s"
    using assms(2) s by (auto simp: less_Suc_eq intro: le_trans)
  have "row_loop 0 (length a) i m ?js (Map.empty, b, b, bs) = (?m', p, p, s)"
    using ps by (metis prod.collapse)
  with t all show ?thesis by blast
qed

lemma main_loop_diag:
  assumes "prev_ok a i m" "\<forall>j < i. runlen a j \<le> bs" "i \<le> length a"
  shows "\<exists>p s. main_loop a a 0 (length a) [i..<length a] (m, b, b, bs) = (p, p, s)"
  using assms
proof (induction "length a - i" arbitrary: i m b bs)
  case 0
  then show ?case by simp
next
  case (Suc k)
  then have lt: "i < length a" by simp
  then have up: "[i..<length a] = i # [Suc i..<length a]" by (simp add: upt_conv_Cons)
  from row_diag[OF Suc.prems(1,2) lt, of b] obtain m' p s where
    r: "row_loop 0 (length a) i m (b2j a (a ! i)) (Map.empty, b, b, bs) = (m', p, p, s)"
    and t: "tab_ok a i m'" and all: "\<forall>j < Suc i. runlen a j \<le> s" by blast
  have pv: "prev_ok a (Suc i) m'" using t by (simp add: prev_ok_def)
  have "k = length a - Suc i" using Suc.hyps(2) by simp
  from Suc.hyps(1)[OF this pv all, of p] lt
  show ?case unfolding up by (simp add: r)
qed

lemma extend_back_diag: "extend_back a a 0 0 (p, p, s) = (0, 0, s + p)"
proof (induction p arbitrary: s)
  case 0
  show ?case by (simp add: extend_back_stop)
next
  case (Suc p)
  have "extend_back a a 0 0 (Suc p, Suc p, s) = extend_back a a 0 0 (Suc p - 1, Suc p - 1, s + 1)"
    by (rule extend_back_step) simp
  then show ?case using Suc[of "s + 1"] by simp
qed

lemma extend_fwd_diag: "s \<le> n \<Longrightarrow> extend_fwd a a n n (0, 0, s) = (0, 0, n)"
proof (induction "n - s" arbitrary: s)
  case 0
  then show ?case by (simp add: extend_fwd_stop)
next
  case (Suc k)
  then have lt: "s < n" by simp
  have "extend_fwd a a n n (0, 0, s) = extend_fwd a a n n (0, 0, s + 1)"
    by (rule extend_fwd_step) (use lt in simp)
  moreover have "k = n - (s + 1)" "s + 1 \<le> n" using Suc.hyps(2) lt by simp_all
  ultimately show ?case using Suc.hyps(1)[of "s + 1"] by simp
qed

lemma find_longest_match_same:
  "find_longest_match a a 0 (length a) 0 (length a) = (0, 0, length a)"
proof -
  have pv: "prev_ok a 0 Map.empty" by (simp add: prev_ok_def)
  from main_loop_diag[OF pv, of 0 0] obtain p s where
    m: "main_loop a a 0 (length a) [0..<length a] (Map.empty, 0, 0, 0) = (p, p, s)" by auto
  have 0: "j2len_ok 0 0 0 Map.empty" by (simp add: j2len_ok_def)
  have 1: "best_ok 0 0 (length a) 0 (0, 0, 0)" by simp
  from main_loop_ok[OF 0 1, of "length a" a a] m
  have "best_ok 0 0 (length a) (length a) (p, p, s)" by simp
  then have le: "s + p \<le> length a" by auto
  show ?thesis
    unfolding find_longest_match_def m extend_back_diag
    by (rule extend_fwd_diag[OF le])
qed

lemma ratio_same: "ratio a a = 1"
proof (cases "a = []")
  case True
  then show ?thesis by (simp add: ratio_def)
next
  case False
  have "matching_blocks a a 0 (length a) 0 (length a) = [(0, 0, length a)]"
    by (subst matching_blocks.simps) (simp add: find_longest_match_same False)
  then show ?thesis using False by (simp add: ratio_def)
qed

subsection \<open>The score\<close>

text \<open>
  Claim C8, as the code has it. The fuzzy score of a list of query tokens and a title lies
  between 0 and 1, and it is 1 when the sorted, deduplicated query tokens and the sorted,
  deduplicated title tokens are the same non-empty list.
\<close>

theorem fuzzy_score_bounds_and_identity:
  "0 \<le> compute_fuzzy_score qtokens title_s \<and> compute_fuzzy_score qtokens title_s \<le> 1
   \<and> (tokenize title_s \<noteq> [] \<and> sorted_set qtokens = sorted_set (tokenize title_s) \<longrightarrow>
        compute_fuzzy_score qtokens title_s = 1)"
  using ratio_bounds[of "join_sp (sorted_set qtokens)" "join_sp (sorted_set (tokenize title_s))"]
    ratio_same[of "join_sp (sorted_set (tokenize title_s))"]
  by (simp add: compute_fuzzy_score_def Let_def)

lemma tokenize_air_nike: "tokenize ''Air Nike'' = [''air'', ''nike'']"
  by code_simp

lemma sorted_set_air_nike:
  "sorted_set [''nike'', ''air'', ''nike''] = [''air'', ''nike'']"
  "sorted_set [''air'', ''nike''] = [''air'', ''nike'']"
  by (simp_all add: sorted_set_def)

text \<open>The theorem at the query tokens \<open>nike air nike\<close> and the title \<open>"Air Nike"\<close>: both
  give the token set \<open>air nike\<close>, and the score is 1.\<close>

theorem fuzzy_score_bounds_and_identity_witness:
  "tokenize ''Air Nike'' \<noteq> []
   \<and> sorted_set [''nike'', ''air'', ''nike''] = sorted_set (tokenize ''Air Nike'')
   \<and> compute_fuzzy_score [''nike'', ''air'', ''nike''] ''Air Nike'' = 1"
  using fuzzy_score_bounds_and_identity[of "[''nike'', ''air'', ''nike'']" "''Air Nike''"]
  by (simp add: tokenize_air_nike sorted_set_air_nike)

lemma blocks_tide_diet:
  "matching_blocks ''tide'' ''diet'' 0 (length ''tide'') 0 (length ''diet'') = [(0, 3, 1)]"
  by code_simp

lemma blocks_diet_tide:
  "matching_blocks ''diet'' ''tide'' 0 (length ''diet'') 0 (length ''tide'') = [(0, 2, 1), (2, 3, 1)]"
  by code_simp

lemma tokenize_tide_diet: "tokenize ''tide'' = [''tide'']" "tokenize ''diet'' = [''diet'']"
  by code_simp+

lemma ratio_tide_diet: "ratio ''tide'' ''diet'' = 1 / 4" "ratio ''diet'' ''tide'' = 1 / 2"
  unfolding ratio_matched blocks_tide_diet blocks_diet_tide by (simp_all add: matched_def)

text \<open>
  Claim C8 as stated also has the score unchanged when the two token sets swap roles. The
  ratio of \<open>difflib\<close> depends on the order of its arguments: \<open>tide\<close> against \<open>diet\<close>
  matches one character and scores 0.25, \<open>diet\<close> against \<open>tide\<close> matches two and scores
  0.5.
\<close>

theorem fuzzy_score_symmetry_counterexample:
  "compute_fuzzy_score [''tide''] ''diet'' = 1 / 4
   \<and> compute_fuzzy_score [''diet''] ''tide'' = 1 / 2
   \<and> ratio ''tide'' ''diet'' = 1 / 4 \<and> ratio ''diet'' ''tide'' = 1 / 2"
  by (simp add: compute_fuzzy_score_def tokenize_tide_diet sorted_set_def ratio_tide_diet)

end
